theory Spec2Isabelle
  imports Complex_Main "HOL-Library.Multiset"
begin

section \<open>Board state (SudokuGrid)\<close>

text \<open>
  The class \<open>SudokuGrid\<close> holds two 9x9 arrays: \<open>grid_\<close> (the values, 0 = empty) and
  \<open>fixed_\<close> (the mask of given cells). The arrays are lists of rows here; \<open>wf_grid\<close>
  states the dimensions the C++ type \<open>std::array<std::array<T, 9>, 9>\<close> fixes.
  Row and column indices are naturals: the code only ever indexes with loop counters that
  start at 0 or at a sub-block corner.
\<close>

record SudokuGrid =
  cells :: "int list list"
  fixed :: "bool list list"

abbreviation (input) SIZE :: nat where "SIZE \<equiv> 9"
abbreviation (input) SUBBLOCK_SIZE :: nat where "SUBBLOCK_SIZE \<equiv> 3"
abbreviation (input) NUM_SUBBLOCKS :: nat where "NUM_SUBBLOCKS \<equiv> 9"
abbreviation (input) MAX_SCORE :: int where "MAX_SCORE \<equiv> 162"

definition square9 :: "'a list list \<Rightarrow> bool" where
  "square9 xss \<longleftrightarrow> length xss = SIZE \<and> list_all (\<lambda>row. length row = SIZE) xss"

definition wf_grid :: "SudokuGrid \<Rightarrow> bool" where
  "wf_grid g \<longleftrightarrow> square9 (cells g) \<and> square9 (fixed g)"

datatype error =
    Invalid_Argument      \<comment> \<open>\<open>std::invalid_argument\<close>: puzzle string too short\<close>
  | Population_Empty      \<comment> \<open>\<open>std::runtime_error("Population is empty")\<close>\<close>
  | Too_Few_Individuals   \<comment> \<open>\<open>std::runtime_error("Population must have at least 2 individuals")\<close>\<close>
  | Length_Error          \<comment> \<open>\<open>std::length_error\<close> of \<open>reserve\<close> with a negative size\<close>
  | Undefined_Behaviour   \<comment> \<open>a read out of range, a null dereference, incrementing \<open>INT_MAX\<close>\<close>

text \<open>Default constructor: all cells empty, none fixed.\<close>

definition empty_grid :: SudokuGrid where
  "empty_grid = \<lparr>cells = replicate SIZE (replicate SIZE 0),
                 fixed = replicate SIZE (replicate SIZE False)\<rparr>"

text \<open>
  Constructor from a string. The loop body writes cell \<open>(i / 9, i % 9)\<close> from character
  \<open>i\<close>; a character is a digit when \<open>c >= '1' && c <= '9'\<close>, and then \<open>c - '0'\<close> is
  stored.
\<close>

definition is_digit_char :: "char \<Rightarrow> bool" where
  "is_digit_char c \<longleftrightarrow>
     (of_char (CHR ''1'') :: nat) \<le> of_char c \<and> (of_char c :: nat) \<le> of_char (CHR ''9'')"

definition digit_value :: "char \<Rightarrow> int" where
  "digit_value c = int (of_char c) - int (of_char (CHR ''0''))"

definition parse_cell :: "string \<Rightarrow> nat \<Rightarrow> SudokuGrid \<Rightarrow> SudokuGrid" where
  "parse_cell puzzle i g =
     (let row = i div SIZE; col = i mod SIZE; c = puzzle ! i in
      if is_digit_char c
      then g\<lparr>cells := (cells g)[row := (cells g ! row)[col := digit_value c]],
             fixed := (fixed g)[row := (fixed g ! row)[col := True]]\<rparr>
      else g\<lparr>cells := (cells g)[row := (cells g ! row)[col := 0]],
             fixed := (fixed g)[row := (fixed g ! row)[col := False]]\<rparr>)"

definition grid_of_string :: "string \<Rightarrow> error + SudokuGrid" where
  "grid_of_string puzzle =
     (if length puzzle < SIZE * SIZE then Inl Invalid_Argument
      else Inr (fold (parse_cell puzzle) [0..<SIZE * SIZE] empty_grid))"

definition get :: "SudokuGrid \<Rightarrow> nat \<Rightarrow> nat \<Rightarrow> int" where
  "get g row col = cells g ! row ! col"

definition set_cell :: "SudokuGrid \<Rightarrow> nat \<Rightarrow> nat \<Rightarrow> int \<Rightarrow> SudokuGrid" where
  "set_cell g row col v = g\<lparr>cells := (cells g)[row := (cells g ! row)[col := v]]\<rparr>"

definition is_fixed :: "SudokuGrid \<Rightarrow> nat \<Rightarrow> nat \<Rightarrow> bool" where
  "is_fixed g row col = fixed g ! row ! col"

text \<open>
  \<open>count_unique\<close>: the \<open>std::bitset<10> seen\<close> is the set of digits whose bit is on.
\<close>

fun count_unique_loop :: "int list \<Rightarrow> int set \<Rightarrow> int \<Rightarrow> int" where
  "count_unique_loop [] seen cnt = cnt"
| "count_unique_loop (v # vs) seen cnt =
     (if 1 \<le> v \<and> v \<le> 9 \<and> v \<notin> seen
      then count_unique_loop vs (insert v seen) (cnt + 1)
      else count_unique_loop vs seen cnt)"

definition count_unique :: "int list \<Rightarrow> int" where
  "count_unique vs = count_unique_loop vs {} 0"

definition get_row_score :: "SudokuGrid \<Rightarrow> nat \<Rightarrow> int" where
  "get_row_score g row = count_unique (cells g ! row)"

definition column_of :: "SudokuGrid \<Rightarrow> nat \<Rightarrow> int list" where
  "column_of g col = map (\<lambda>row. cells g ! row ! col) [0..<SIZE]"

definition get_column_score :: "SudokuGrid \<Rightarrow> nat \<Rightarrow> int" where
  "get_column_score g col = count_unique (column_of g col)"

definition get_total_score :: "SudokuGrid \<Rightarrow> int" where
  "get_total_score g =
     foldl (\<lambda>score i. score + get_row_score g i + get_column_score g i) 0 [0..<SIZE]"

definition get_row_band_score :: "SudokuGrid \<Rightarrow> nat \<Rightarrow> int" where
  "get_row_band_score g band_index =
     (let start_row = band_index * SUBBLOCK_SIZE in
      foldl (\<lambda>score r. score + get_row_score g r) 0 [start_row..<start_row + SUBBLOCK_SIZE])"

definition get_column_stack_score :: "SudokuGrid \<Rightarrow> nat \<Rightarrow> int" where
  "get_column_stack_score g stack_index =
     (let start_col = stack_index * SUBBLOCK_SIZE in
      foldl (\<lambda>score c. score + get_column_score g c) 0 [start_col..<start_col + SUBBLOCK_SIZE])"

definition subblock_top_left :: "nat \<Rightarrow> nat \<times> nat" where
  "subblock_top_left subblock_index =
     (let block_row = subblock_index div SUBBLOCK_SIZE;
          block_col = subblock_index mod SUBBLOCK_SIZE
      in (block_row * SUBBLOCK_SIZE, block_col * SUBBLOCK_SIZE))"

text \<open>The cells of a sub-block in the order of the two nested loops (row-major).\<close>

definition subblock_cells :: "nat \<Rightarrow> (nat \<times> nat) list" where
  "subblock_cells subblock_index =
     (let (top, left) = subblock_top_left subblock_index in
      concat (map (\<lambda>r. map (\<lambda>c. (r, c)) [left..<left + SUBBLOCK_SIZE])
                  [top..<top + SUBBLOCK_SIZE]))"

definition get_subblock_non_fixed_positions :: "SudokuGrid \<Rightarrow> nat \<Rightarrow> (nat \<times> nat) list" where
  "get_subblock_non_fixed_positions g subblock_index =
     filter (\<lambda>(r, c). \<not> fixed g ! r ! c) (subblock_cells subblock_index)"

definition copy_row_band_from :: "SudokuGrid \<Rightarrow> SudokuGrid \<Rightarrow> nat \<Rightarrow> SudokuGrid" where
  "copy_row_band_from g other band_index =
     (let start_row = band_index * SUBBLOCK_SIZE in
      fold (\<lambda>r g'. g'\<lparr>cells := (cells g')[r := cells other ! r],
                       fixed := (fixed g')[r := fixed other ! r]\<rparr>)
           [start_row..<start_row + SUBBLOCK_SIZE] g)"

definition copy_cell_from :: "SudokuGrid \<Rightarrow> nat \<times> nat \<Rightarrow> SudokuGrid \<Rightarrow> SudokuGrid" where
  "copy_cell_from other p g =
     (case p of (row, c) \<Rightarrow>
        g\<lparr>cells := (cells g)[row := (cells g ! row)[c := cells other ! row ! c]],
          fixed := (fixed g)[row := (fixed g ! row)[c := fixed other ! row ! c]]\<rparr>)"

definition copy_column_stack_from :: "SudokuGrid \<Rightarrow> SudokuGrid \<Rightarrow> nat \<Rightarrow> SudokuGrid" where
  "copy_column_stack_from g other stack_index =
     (let start_col = stack_index * SUBBLOCK_SIZE in
      fold (copy_cell_from other)
           (concat (map (\<lambda>row. map (\<lambda>c. (row, c)) [start_col..<start_col + SUBBLOCK_SIZE])
                        [0..<SIZE])) g)"

definition is_solved :: "SudokuGrid \<Rightarrow> bool" where
  "is_solved g \<longleftrightarrow> get_total_score g = MAX_SCORE"

text \<open>The puzzle of \<open>main.cpp\<close>.\<close>

definition example_puzzle :: string where
  "example_puzzle =
     ''000260701'' @ ''680070090'' @ ''190004500'' @
     ''820100040'' @ ''004602900'' @ ''050003028'' @
     ''009300074'' @ ''040050036'' @ ''703018000''"

text \<open>The grid the constructor builds from \<open>example_puzzle\<close>.\<close>

definition example_cells :: "int list list" where
  "example_cells =
     [[0, 0, 0, 2, 6, 0, 7, 0, 1], [6, 8, 0, 0, 7, 0, 0, 9, 0],
      [1, 9, 0, 0, 0, 4, 5, 0, 0], [8, 2, 0, 1, 0, 0, 0, 4, 0],
      [0, 0, 4, 6, 0, 2, 9, 0, 0], [0, 5, 0, 0, 0, 3, 0, 2, 8],
      [0, 0, 9, 3, 0, 0, 0, 7, 4], [0, 4, 0, 0, 5, 0, 0, 3, 6],
      [7, 0, 3, 0, 1, 8, 0, 0, 0]]"

definition example_grid :: SudokuGrid where
  "example_grid = \<lparr>cells = example_cells, fixed = map (map (\<lambda>v. v \<noteq> 0)) example_cells\<rparr>"

text \<open>A completed, valid grid, as a puzzle string and as the grid the constructor builds.\<close>

definition solved_puzzle :: string where
  "solved_puzzle =
     ''123456789'' @ ''456789123'' @ ''789123456'' @
     ''234567891'' @ ''567891234'' @ ''891234567'' @
     ''345678912'' @ ''678912345'' @ ''912345678''"

definition solved_grid :: SudokuGrid where
  "solved_grid =
     \<lparr>cells = [[1, 2, 3, 4, 5, 6, 7, 8, 9], [4, 5, 6, 7, 8, 9, 1, 2, 3],
               [7, 8, 9, 1, 2, 3, 4, 5, 6], [2, 3, 4, 5, 6, 7, 8, 9, 1],
               [5, 6, 7, 8, 9, 1, 2, 3, 4], [8, 9, 1, 2, 3, 4, 5, 6, 7],
               [3, 4, 5, 6, 7, 8, 9, 1, 2], [6, 7, 8, 9, 1, 2, 3, 4, 5],
               [9, 1, 2, 3, 4, 5, 6, 7, 8]],
      fixed = replicate SIZE (replicate SIZE True)\<rparr>"

section \<open>Candidate (Chromosome)\<close>

text \<open>
  A chromosome owns a grid and the cached fitness. The two constructors set the cache to 0;
  copying is the identity on values.
\<close>

record Chromosome =
  grid :: SudokuGrid
  cached_fitness :: int

definition Chromosome_default :: Chromosome where
  "Chromosome_default = \<lparr>grid = empty_grid, cached_fitness = 0\<rparr>"

definition Chromosome_of_puzzle :: "SudokuGrid \<Rightarrow> Chromosome" where
  "Chromosome_of_puzzle initial_puzzle = \<lparr>grid = initial_puzzle, cached_fitness = 0\<rparr>"

definition fitness :: "Chromosome \<Rightarrow> int" where
  "fitness c = cached_fitness c"

definition recalculate_fitness :: "Chromosome \<Rightarrow> Chromosome" where
  "recalculate_fitness c = c\<lparr>cached_fitness := get_total_score (grid c)\<rparr>"

definition is_solution :: "Chromosome \<Rightarrow> bool" where
  "is_solution c \<longleftrightarrow> fitness c = MAX_SCORE"

section \<open>Random source (RandomGenerator)\<close>

text \<open>
  The engine is the sequence of the raw numbers it will produce; every draw takes the next
  one, and an exhausted sequence goes on with zeros. A distribution maps the raw number
  into its range: \<open>rand_int lo hi\<close> into \<open>lo..hi\<close> (for \<open>lo \<le> hi\<close>) and \<open>rand_double\<close>
  into \<open>[0, 1)\<close>, with doubles read as reals. Every outcome of the C++ functions is the
  outcome of the model on some sequence, so a statement for all sequences covers all runs.
\<close>

type_synonym rng = "nat list"

definition next_raw :: "rng \<Rightarrow> nat \<times> rng" where
  "next_raw r = (case r of [] \<Rightarrow> (0, []) | x # r' \<Rightarrow> (x, r'))"

definition rand_int :: "int \<Rightarrow> int \<Rightarrow> rng \<Rightarrow> int \<times> rng" where
  "rand_int lo hi r =
     (case next_raw r of (x, r') \<Rightarrow> (lo + int (x mod nat (hi - lo + 1)), r'))"

definition rand_double :: "rng \<Rightarrow> real \<times> rng" where
  "rand_double r =
     (case next_raw r of (x, r') \<Rightarrow> (real (x mod 4294967296) / 4294967296, r'))"

text \<open>
  \<open>std::shuffle\<close> leaves the algorithm to the implementation; this one draws the next
  element among those that remain, which reaches every permutation.
\<close>

fun shuffle_pick :: "nat \<Rightarrow> 'a list \<Rightarrow> rng \<Rightarrow> 'a list \<times> rng" where
  "shuffle_pick 0 xs r = ([], r)"
| "shuffle_pick (Suc n) xs r =
     (case rand_int 0 (int (length xs) - 1) r of (k, r') \<Rightarrow>
        (case shuffle_pick n (take (nat k) xs @ drop (Suc (nat k)) xs) r' of (ys, r'') \<Rightarrow>
           (xs ! nat k # ys, r'')))"

definition shuffle :: "'a list \<Rightarrow> rng \<Rightarrow> 'a list \<times> rng" where
  "shuffle xs r = shuffle_pick (length xs) xs r"

definition two_distinct_indices :: "int \<Rightarrow> rng \<Rightarrow> (int \<times> int) \<times> rng" where
  "two_distinct_indices max_index r =
     (case rand_int 0 max_index r of (i, r1) \<Rightarrow>
        (case rand_int 0 (max_index - 1) r1 of (j, r2) \<Rightarrow>
           ((i, if j \<ge> i then j + 1 else j), r2)))"

text \<open>\<open>resize(k)\<close> truncates, or pads with zeros when \<open>k\<close> exceeds the length.\<close>

definition resize :: "nat \<Rightarrow> nat list \<Rightarrow> nat list" where
  "resize k xs = take k xs @ replicate (k - length xs) 0"

definition sample_indices :: "nat \<Rightarrow> nat \<Rightarrow> rng \<Rightarrow> nat list \<times> rng" where
  "sample_indices n k r =
     (case shuffle [0..<n] r of (indices, r') \<Rightarrow> (resize k indices, r'))"

section \<open>Random completion of a candidate\<close>

text \<open>
  \<open>fill_subblock_random\<close>: the bitset \<open>present\<close> is the set of the nonzero values of the
  block; indexing it with a value outside 0..9, and reading \<open>missing\<close> past its end, are
  undefined behaviour and end the model with \<open>Undefined_Behaviour\<close>.
\<close>

definition subblock_values :: "SudokuGrid \<Rightarrow> nat \<Rightarrow> int list" where
  "subblock_values g subblock_index =
     map (\<lambda>(r, c). get g r c) (subblock_cells subblock_index)"

fun place_missing ::
  "(nat \<times> nat) list \<Rightarrow> int list \<Rightarrow> nat \<Rightarrow> SudokuGrid \<Rightarrow> error + SudokuGrid" where
  "place_missing [] missing idx g = Inr g"
| "place_missing ((r, c) # ps) missing idx g =
     (if get g r c = 0
      then (if idx < length missing
            then place_missing ps missing (idx + 1) (set_cell g r c (missing ! idx))
            else Inl Undefined_Behaviour)
      else place_missing ps missing idx g)"

definition missing_digits :: "SudokuGrid \<Rightarrow> nat \<Rightarrow> int list" where
  "missing_digits g subblock_index =
     (let present = set (filter (\<lambda>v. v \<noteq> 0) (subblock_values g subblock_index))
      in filter (\<lambda>d. d \<notin> present) [1..9])"

definition fill_subblock_random ::
  "Chromosome \<Rightarrow> nat \<Rightarrow> rng \<Rightarrow> error + (Chromosome \<times> rng)" where
  "fill_subblock_random chrom subblock_index r =
     (if \<not> list_all (\<lambda>v. 0 \<le> v \<and> v \<le> 9) (subblock_values (grid chrom) subblock_index)
      then Inl Undefined_Behaviour
      else (case shuffle (missing_digits (grid chrom) subblock_index) r of (missing, r') \<Rightarrow>
        (case place_missing (subblock_cells subblock_index) missing 0 (grid chrom) of
           Inl e \<Rightarrow> Inl e
         | Inr g' \<Rightarrow> Inr (chrom\<lparr>grid := g'\<rparr>, r'))))"

fun fill_blocks :: "nat list \<Rightarrow> Chromosome \<Rightarrow> rng \<Rightarrow> error + (Chromosome \<times> rng)" where
  "fill_blocks [] chrom r = Inr (chrom, r)"
| "fill_blocks (block # blocks) chrom r =
     (case fill_subblock_random chrom block r of
        Inl e \<Rightarrow> Inl e
      | Inr (chrom', r') \<Rightarrow> fill_blocks blocks chrom' r')"

definition initialize_random :: "Chromosome \<Rightarrow> rng \<Rightarrow> error + (Chromosome \<times> rng)" where
  "initialize_random chrom r =
     (case fill_blocks [0..<NUM_SUBBLOCKS] chrom r of
        Inl e \<Rightarrow> Inl e
      | Inr (chrom', r') \<Rightarrow> Inr (recalculate_fitness chrom', r'))"

section \<open>Genetic operators\<close>

definition crossover_band :: "Chromosome \<Rightarrow> Chromosome \<Rightarrow> nat \<Rightarrow> Chromosome \<Rightarrow> Chromosome" where
  "crossover_band parent1 parent2 band child1 =
     (let score1 = get_row_band_score (grid parent1) band;
          score2 = get_row_band_score (grid parent2) band
      in if score2 > score1
         then child1\<lparr>grid := copy_row_band_from (grid child1) (grid parent2) band\<rparr>
         else child1)"

definition crossover_stack :: "Chromosome \<Rightarrow> Chromosome \<Rightarrow> nat \<Rightarrow> Chromosome \<Rightarrow> Chromosome" where
  "crossover_stack parent1 parent2 stack child2 =
     (let score1 = get_column_stack_score (grid parent1) stack;
          score2 = get_column_stack_score (grid parent2) stack
      in if score2 > score1
         then child2\<lparr>grid := copy_column_stack_from (grid child2) (grid parent2) stack\<rparr>
         else child2\<lparr>grid := copy_column_stack_from (grid child2) (grid parent1) stack\<rparr>)"

definition crossover :: "Chromosome \<Rightarrow> Chromosome \<Rightarrow> Chromosome \<times> Chromosome" where
  "crossover parent1 parent2 =
     (let child1 = fold (crossover_band parent1 parent2) [0..<3] parent1;
          child2 = fold (crossover_stack parent1 parent2) [0..<3] parent1
      in (recalculate_fitness child1, recalculate_fitness child2))"

definition swap_cells :: "SudokuGrid \<Rightarrow> nat \<times> nat \<Rightarrow> nat \<times> nat \<Rightarrow> SudokuGrid" where
  "swap_cells g p1 p2 =
     (case p1 of (r1, c1) \<Rightarrow> case p2 of (r2, c2) \<Rightarrow>
        (let temp = get g r1 c1;
             g1 = set_cell g r1 c1 (get g r2 c2)
         in set_cell g1 r2 c2 temp))"

definition mutate_subblock :: "Chromosome \<Rightarrow> nat \<Rightarrow> rng \<Rightarrow> Chromosome \<times> rng" where
  "mutate_subblock chrom subblock_index r =
     (let positions = get_subblock_non_fixed_positions (grid chrom) subblock_index in
      if length positions < 2 then (chrom, r)
      else (case two_distinct_indices (int (length positions) - 1) r of ((idx1, idx2), r') \<Rightarrow>
        (chrom\<lparr>grid := swap_cells (grid chrom) (positions ! nat idx1) (positions ! nat idx2)\<rparr>,
         r')))"

text \<open>The body of the loop of \<open>mutate\<close>; the state is the chromosome, the flag and the engine.\<close>

definition mutate_block ::
  "real \<Rightarrow> nat \<Rightarrow> Chromosome \<times> bool \<times> rng \<Rightarrow> Chromosome \<times> bool \<times> rng" where
  "mutate_block mutation_rate block st =
     (case st of (chrom, mutated, r) \<Rightarrow>
        (case rand_double r of (u, r1) \<Rightarrow>
           if u < mutation_rate
           then (case mutate_subblock chrom block r1 of (chrom', r2) \<Rightarrow> (chrom', True, r2))
           else (chrom, mutated, r1)))"

definition mutate :: "Chromosome \<Rightarrow> real \<Rightarrow> rng \<Rightarrow> Chromosome \<times> rng" where
  "mutate chrom mutation_rate r =
     (case fold (mutate_block mutation_rate) [0..<NUM_SUBBLOCKS] (chrom, False, r) of
        (chrom', mutated, r') \<Rightarrow>
          (if mutated then recalculate_fitness chrom' else chrom', r'))"

fun local_search_loop ::
  "nat \<Rightarrow> Chromosome \<Rightarrow> Chromosome \<Rightarrow> int \<Rightarrow> rng \<Rightarrow> Chromosome \<times> rng" where
  "local_search_loop 0 parent best best_fitness r = (best, r)"
| "local_search_loop (Suc n) parent best best_fitness r =
     (case rand_int 0 (int NUM_SUBBLOCKS - 1) r of (block, r1) \<Rightarrow>
        (case mutate_subblock parent (nat block) r1 of (mutated, r2) \<Rightarrow>
           (let candidate = recalculate_fitness mutated in
            if fitness candidate > best_fitness
            then local_search_loop n parent candidate (fitness candidate) r2
            else local_search_loop n parent best best_fitness r2)))"

definition local_search :: "Chromosome \<Rightarrow> int \<Rightarrow> rng \<Rightarrow> Chromosome \<times> rng" where
  "local_search parent num_candidates r =
     local_search_loop (nat num_candidates) parent parent (fitness parent) r"

text \<open>
  The candidates one call of \<open>local_search\<close> tries, in order: each is a copy of the parent
  with one sub-block mutated and the fitness recomputed. Neither the candidates nor the
  engine depend on which of them were kept, so the list is a function of the parent and
  the engine alone.
\<close>

fun tried_candidates :: "nat \<Rightarrow> Chromosome \<Rightarrow> rng \<Rightarrow> Chromosome list" where
  "tried_candidates 0 parent r = []"
| "tried_candidates (Suc n) parent r =
     (case rand_int 0 (int NUM_SUBBLOCKS - 1) r of (block, r1) \<Rightarrow>
        (case mutate_subblock parent (nat block) r1 of (mutated, r2) \<Rightarrow>
           recalculate_fitness mutated # tried_candidates n parent r2))"

text \<open>
  The example puzzle, completed by \<open>initialize_random\<close> with an engine that only produces
  zeros.
\<close>

definition example_filled :: Chromosome where
  "example_filled =
     \<lparr>grid = \<lparr>cells =
        [[2, 3, 4, 2, 6, 1, 7, 2, 1], [6, 8, 5, 3, 7, 5, 3, 9, 4],
         [1, 9, 7, 8, 9, 4, 5, 6, 8], [8, 2, 1, 1, 4, 5, 1, 4, 3],
         [3, 6, 4, 6, 7, 2, 9, 5, 6], [7, 5, 9, 8, 9, 3, 7, 2, 8],
         [1, 2, 9, 3, 2, 4, 1, 7, 4], [5, 4, 6, 6, 5, 7, 2, 3, 6],
         [7, 8, 3, 9, 1, 8, 5, 8, 9]],
        fixed = fixed example_grid\<rparr>,
      cached_fitness = 118\<rparr>"

text \<open>
  The state of the loop of \<open>mutate\<close> before block \<open>k\<close>, and whether the draw made for
  block \<open>k\<close> falls below the rate.
\<close>

definition mutate_state :: "real \<Rightarrow> Chromosome \<Rightarrow> rng \<Rightarrow> nat \<Rightarrow> Chromosome \<times> bool \<times> rng" where
  "mutate_state mutation_rate chrom r k =
     fold (mutate_block mutation_rate) [0..<k] (chrom, False, r)"

definition block_touched :: "real \<Rightarrow> Chromosome \<Rightarrow> rng \<Rightarrow> nat \<Rightarrow> bool" where
  "block_touched mutation_rate chrom r k \<longleftrightarrow>
     fst (rand_double (snd (snd (mutate_state mutation_rate chrom r k)))) < mutation_rate"

section \<open>Population\<close>

text \<open>
  A population is the vector of its individuals. Selection returns a reference into the
  vector; references are indices here, and comparing two pointers is comparing two indices.
\<close>

type_synonym Population = "Chromosome list"



text \<open>\<open>std::max_element\<close> keeps the first of the largest elements.\<close>

definition max_element :: "Chromosome list \<Rightarrow> Chromosome" where
  "max_element xs = foldl (\<lambda>largest x. if fitness largest < fitness x then x else largest) (hd xs) (tl xs)"

definition get_best :: "Population \<Rightarrow> error + Chromosome" where
  "get_best individuals =
     (if individuals = [] then Inl Population_Empty else Inr (max_element individuals))"

definition best_fitness_of :: "Population \<Rightarrow> int" where
  "best_fitness_of individuals =
     (if individuals = [] then 0 else fitness (max_element individuals))"



definition tournament_select :: "Population \<Rightarrow> int \<Rightarrow> rng \<Rightarrow> error + (nat \<times> rng)" where
  "tournament_select individuals tournament_size r =
     (if individuals = [] then Inl Population_Empty
      else
        (let size1 = min tournament_size (int (length individuals));
             size2 = max size1 1
         in case sample_indices (length individuals) (nat size2) r of (indices, r') \<Rightarrow>
              Inr (foldl (\<lambda>best_idx idx.
                            if fitness (individuals ! idx) > fitness (individuals ! best_idx)
                            then idx else best_idx)
                         (indices ! 0) indices,
                   r')))"

text \<open>
  The retry loop of \<open>select_parents\<close>: \<open>pick_second n\<close> makes at most \<open>n + 1\<close> selections
  and stops at the first that differs from \<open>parent1\<close>; the source makes at most
  \<open>max_attempts = 10\<close>.
\<close>

fun pick_second :: "nat \<Rightarrow> Population \<Rightarrow> int \<Rightarrow> nat \<Rightarrow> rng \<Rightarrow> error + (nat \<times> rng)" where
  "pick_second n individuals tournament_size parent1 r =
     (case tournament_select individuals tournament_size r of
        Inl e \<Rightarrow> Inl e
      | Inr (parent2, r') \<Rightarrow>
          (if parent2 \<noteq> parent1 then Inr (parent2, r')
           else (case n of
                   0 \<Rightarrow> Inr (parent2, r')
                 | Suc m \<Rightarrow> pick_second m individuals tournament_size parent1 r')))"

declare pick_second.simps [simp del]

definition select_parents :: "Population \<Rightarrow> int \<Rightarrow> rng \<Rightarrow> error + ((nat \<times> nat) \<times> rng)" where
  "select_parents individuals tournament_size r =
     (if length individuals < 2 then Inl Too_Few_Individuals
      else (case tournament_select individuals tournament_size r of
          Inl e \<Rightarrow> Inl e
        | Inr (parent1, r1) \<Rightarrow>
            (case pick_second 9 individuals tournament_size parent1 r1 of
               Inl e \<Rightarrow> Inl e
             | Inr (parent2, r2) \<Rightarrow>
                 (if parent2 = parent1
                  then (case find (\<lambda>i. i \<noteq> parent1) [0..<length individuals] of
                          Some i \<Rightarrow> Inr ((parent1, i), r2)
                        | None \<Rightarrow> Inr ((parent1, parent2), r2))
                  else Inr ((parent1, parent2), r2)))))"

text \<open>A population of three: fitness 118, 0 (stale cache) and 162.\<close>

definition example_population :: Population where
  "example_population =
     [example_filled, Chromosome_of_puzzle solved_grid,
      recalculate_fitness (Chromosome_of_puzzle solved_grid)]"

section \<open>Solver\<close>

text \<open>
  \<open>print_progress\<close> only writes to the console and reads the statistics, which do not
  raise and do not draw from the engine; the elapsed time is wall-clock time. Neither is
  part of the model. Integers are mathematical integers; the one place where the code can
  overflow, the increment of the generation counter at \<open>INT_MAX\<close>, is a branch of its own.
\<close>

record SolverParams =
  population_size :: int
  max_generations :: int
  crossover_rate :: real
  mutation_rate :: real
  tournament_size :: int
  local_search_candidates :: int
  use_local_search :: bool
  elitism :: bool
  report_interval :: int

definition default_params :: SolverParams where
  "default_params =
     \<lparr>population_size = 150, max_generations = 100000, crossover_rate = 3 / 10,
      mutation_rate = 3 / 10, tournament_size = 3, local_search_candidates = 2,
      use_local_search = True, elitism = True, report_interval = 1000\<rparr>"

record SolverResult =
  solved :: bool
  generations :: int
  best_fitness :: int
  best_individual :: Chromosome

text \<open>
  Steps 3 and 4 of the loop body of \<open>run_generation\<close>, which both branches share: mutate
  both children, then refine both by local search when it is enabled with more than one
  candidate.
\<close>

definition mutate_and_refine ::
  "SolverParams \<Rightarrow> Chromosome \<Rightarrow> Chromosome \<Rightarrow> rng \<Rightarrow> (Chromosome \<times> Chromosome) \<times> rng" where
  "mutate_and_refine params c1 c2 r =
     (case mutate c1 (mutation_rate params) r of (child1, r1) \<Rightarrow>
      case mutate c2 (mutation_rate params) r1 of (child2, r2) \<Rightarrow>
        if use_local_search params \<and> local_search_candidates params > 1
        then (case local_search child1 (local_search_candidates params) r2 of (child1', r3) \<Rightarrow>
              case local_search child2 (local_search_candidates params) r3 of (child2', r4) \<Rightarrow>
                ((child1', child2'), r4))
        else ((child1, child2), r2))"

text \<open>One pass of the while loop of \<open>run_generation\<close>.\<close>

definition breed ::
  "SolverParams \<Rightarrow> Population \<Rightarrow> Chromosome list \<Rightarrow> rng \<Rightarrow> error + (Chromosome list \<times> rng)" where
  "breed params population new_generation r =
     (case select_parents population (tournament_size params) r of
        Inl e \<Rightarrow> Inl e
      | Inr ((parent1, parent2), r1) \<Rightarrow>
          (case rand_double r1 of (u, r2) \<Rightarrow>
             (case (if u < crossover_rate params
                    then (case crossover (population ! parent1) (population ! parent2) of
                            (child1, child2) \<Rightarrow> mutate_and_refine params child1 child2 r2)
                    else mutate_and_refine params (population ! parent1) (population ! parent2) r2)
              of ((child1, child2), r3) \<Rightarrow>
                (let new_generation1 = new_generation @ [child1] in
                 if length new_generation1 < length population
                 then Inr (new_generation1 @ [child2], r3)
                 else Inr (new_generation1, r3)))))"

function offspring_loop ::
  "SolverParams \<Rightarrow> Population \<Rightarrow> Chromosome list \<Rightarrow> rng \<Rightarrow> error + (Chromosome list \<times> rng)" where
  "offspring_loop params population new_generation r =
     (if length new_generation < length population
      then (case breed params population new_generation r of
              Inl e \<Rightarrow> Inl e
            | Inr (new_generation', r') \<Rightarrow> offspring_loop params population new_generation' r')
      else Inr (new_generation, r))"
  by pat_completeness auto
termination
  by (relation "measure (\<lambda>(params, population, new_generation, r). length population - length new_generation)")
     (auto simp: breed_def Let_def split: sum.splits prod.splits if_splits)

definition run_generation ::
  "SolverParams \<Rightarrow> Population \<Rightarrow> rng \<Rightarrow> error + (Population \<times> rng)" where
  "run_generation params population r =
     (if elitism params
      then (case get_best population of
              Inl e \<Rightarrow> Inl e
            | Inr best \<Rightarrow> offspring_loop params population [best] r)
      else offspring_loop params population [] r)"

text \<open>
  The population after \<open>n\<close> successive calls of \<open>run_generation\<close>, as the loop of
  \<open>solve\<close> makes them (the engine is threaded through).
\<close>

fun run_generations ::
  "nat \<Rightarrow> SolverParams \<Rightarrow> Population \<Rightarrow> rng \<Rightarrow> error + (Population \<times> rng)" where
  "run_generations 0 params population r = Inr (population, r)"
| "run_generations (Suc n) params population r =
     (case run_generations n params population r of
        Inl e \<Rightarrow> Inl e
      | Inr (population', r') \<Rightarrow> run_generation params population' r')"




section \<open>The sub-block invariant\<close>

text \<open>
  A sub-block is valid when each digit 1..9 occurs exactly once among its nine cells; the
  invariant is that all nine sub-blocks are valid. \<open>valid_cells\<close> says that every cell holds
  a value of 0..9, and \<open>givens_distinct\<close> that no sub-block holds a nonzero value twice.
\<close>

definition subblock_valid :: "SudokuGrid \<Rightarrow> nat \<Rightarrow> bool" where
  "subblock_valid g b \<longleftrightarrow> list_all (\<lambda>d. count_list (subblock_values g b) d = 1) [1..9]"

definition subblocks_valid :: "SudokuGrid \<Rightarrow> bool" where
  "subblocks_valid g \<longleftrightarrow> list_all (subblock_valid g) [0..<NUM_SUBBLOCKS]"

definition valid_cells :: "SudokuGrid \<Rightarrow> bool" where
  "valid_cells g \<longleftrightarrow> list_all (list_all (\<lambda>v. 0 \<le> v \<and> v \<le> 9)) (cells g)"

definition givens_distinct :: "SudokuGrid \<Rightarrow> bool" where
  "givens_distinct g \<longleftrightarrow>
     list_all (\<lambda>b. distinct (filter (\<lambda>v. v \<noteq> 0) (subblock_values g b))) [0..<NUM_SUBBLOCKS]"

text \<open>
  The chromosomes that any sequence of applications of the operators produces from the
  chromosomes of a set \<open>S\<close>, with any outcome of the random draws.
\<close>

inductive derived :: "Chromosome set \<Rightarrow> Chromosome \<Rightarrow> bool" for S :: "Chromosome set" where
  base: "c \<in> S \<Longrightarrow> derived S c"
| crossover_first: "derived S p1 \<Longrightarrow> derived S p2 \<Longrightarrow> derived S (fst (crossover p1 p2))"
| crossover_second: "derived S p1 \<Longrightarrow> derived S p2 \<Longrightarrow> derived S (snd (crossover p1 p2))"
| mutated: "derived S c \<Longrightarrow> derived S (fst (mutate c rate r))"
| subblock_mutated: "derived S c \<Longrightarrow> b < NUM_SUBBLOCKS \<Longrightarrow> derived S (fst (mutate_subblock c b r))"
| searched: "derived S c \<Longrightarrow> derived S (fst (local_search c n r))"

text \<open>A puzzle with the digit 1 given twice in the first sub-block, and its completion.\<close>

definition duplicate_puzzle :: string where
  "duplicate_puzzle = ''11'' @ replicate 79 (CHR ''0'')"

definition duplicate_grid :: SudokuGrid where
  "duplicate_grid =
     \<lparr>cells = [1, 1, 0, 0, 0, 0, 0, 0, 0] # replicate 8 (replicate 9 0),
      fixed = [True, True, False, False, False, False, False, False, False]
              # replicate 8 (replicate 9 False)\<rparr>"

definition duplicate_filled :: Chromosome where
  "duplicate_filled =
     \<lparr>grid = \<lparr>cells =
        [[1, 1, 2, 1, 2, 3, 1, 2, 3], [3, 4, 5, 4, 5, 6, 4, 5, 6],
         [6, 7, 8, 7, 8, 9, 7, 8, 9], [1, 2, 3, 1, 2, 3, 1, 2, 3],
         [4, 5, 6, 4, 5, 6, 4, 5, 6], [7, 8, 9, 7, 8, 9, 7, 8, 9],
         [1, 2, 3, 1, 2, 3, 1, 2, 3], [4, 5, 6, 4, 5, 6, 4, 5, 6],
         [7, 8, 9, 7, 8, 9, 7, 8, 9]],
        fixed = fixed duplicate_grid\<rparr>,
      cached_fitness = 64\<rparr>"

text \<open>
  The values \<open>fill_subblock_random\<close> leaves in a block: the zeros of the block, in order,
  are replaced by the successive elements of the shuffled list.
\<close>

fun fill_zeros :: "int list \<Rightarrow> int list \<Rightarrow> int list" where
  "fill_zeros [] ms = []"
| "fill_zeros (v # vs) ms =
     (if v = 0
      then (case ms of [] \<Rightarrow> v # fill_zeros vs [] | m # ms' \<Rightarrow> m # fill_zeros vs ms')
      else v # fill_zeros vs ms)"

section \<open>Auxiliary notions\<close>

text \<open>
  Notions used to state and prove the properties below: what the string constructor must
  write into the cell of character \<open>i\<close>; the parent whose band or stack a child of
  \<open>crossover\<close> takes; the scan of \<open>tournament_select\<close> for the fittest index; and the
  populations on which \<open>run_generation\<close> does not raise.
\<close>

definition cell_spec :: "string \<Rightarrow> nat \<Rightarrow> SudokuGrid \<Rightarrow> bool" where
  "cell_spec s i g \<longleftrightarrow>
     (if is_digit_char (s ! i)
      then cells g ! (i div 9) ! (i mod 9) = digit_value (s ! i) \<and> fixed g ! (i div 9) ! (i mod 9)
      else cells g ! (i div 9) ! (i mod 9) = 0 \<and> \<not> fixed g ! (i div 9) ! (i mod 9))"

definition band_parent :: "Chromosome \<Rightarrow> Chromosome \<Rightarrow> nat \<Rightarrow> Chromosome" where
  "band_parent parent1 parent2 band =
     (if get_row_band_score (grid parent2) band > get_row_band_score (grid parent1) band
      then parent2 else parent1)"

definition stack_parent :: "Chromosome \<Rightarrow> Chromosome \<Rightarrow> nat \<Rightarrow> Chromosome" where
  "stack_parent parent1 parent2 stack =
     (if get_column_stack_score (grid parent2) stack > get_column_stack_score (grid parent1) stack
      then parent2 else parent1)"

definition scan_best_idx :: "(nat \<Rightarrow> int) \<Rightarrow> nat \<Rightarrow> nat list \<Rightarrow> nat" where
  "scan_best_idx f a xs = foldl (\<lambda>best idx. if f idx > f best then idx else best) a xs"


section \<open>Properties of the board state\<close>

lemma upt_9: "[0..<9] = [0, 1, 2, 3, 4, 5, 6, 7, 8]"
  by (simp add: upt_rec)

lemma is_digit_char_iff: "is_digit_char c \<longleftrightarrow> c \<in> set ''123456789''"
proof -
  have "(49 \<le> (of_char c :: nat) \<and> (of_char c :: nat) \<le> 57) \<longleftrightarrow> (of_char c :: nat) \<in> {49,50,51,52,53,54,55,56,57}"
    by auto
  also have "\<dots> \<longleftrightarrow> c \<in> set ''123456789''"
    by (cases c) (auto simp: )
  finally show ?thesis by (simp add: is_digit_char_def)
qed

lemma digit_value_nth: "k < 9 \<Longrightarrow> digit_value (''123456789'' ! k) = int k + 1"
  unfolding digit_value_def
  by (auto simp: less_Suc_eq numeral_nat nth_Cons')

lemma square9_length: "square9 xss \<Longrightarrow> length xss = 9"
  by (simp add: square9_def)

lemma square9_row: "square9 xss \<Longrightarrow> r < 9 \<Longrightarrow> length (xss ! r) = 9"
  by (simp add: square9_def list_all_length)

lemma square9_update_row: "square9 xss \<Longrightarrow> length row = 9 \<Longrightarrow> square9 (xss[r := row])"
  by (auto simp: square9_def list_all_iff dest!: set_update_subset_insert [THEN subsetD])

lemma square9_update: "square9 xss \<Longrightarrow> square9 (xss[r := (xss ! r)[c := v]])"
proof (cases "r < length xss")
  case True
  assume "square9 xss"
  then show ?thesis using True
    by (intro square9_update_row) (simp_all add: square9_def list_all_length)
next
  case False
  assume "square9 xss"
  then show ?thesis using False by (simp add: list_update_beyond)
qed

lemma nth_nth_update:
  "r < length xss \<Longrightarrow> c < length (xss ! r) \<Longrightarrow>
   xss[r := (xss ! r)[c := v]] ! r' ! c' = (if r' = r \<and> c' = c then v else xss ! r' ! c')"
  by (auto simp: nth_list_update)

lemma square9_nth_update:
  "square9 xss \<Longrightarrow> r < 9 \<Longrightarrow> c < 9 \<Longrightarrow>
   xss[r := (xss ! r)[c := v]] ! r' ! c' = (if r' = r \<and> c' = c then v else xss ! r' ! c')"
  by (simp add: nth_nth_update square9_length square9_row)

lemma square9_eqI:
  assumes "square9 xss" "square9 yss" "\<And>r c. r < 9 \<Longrightarrow> c < 9 \<Longrightarrow> xss ! r ! c = yss ! r ! c"
  shows "xss = yss"
proof (rule nth_equalityI)
  show "length xss = length yss" using assms by (simp add: square9_length)
next
  fix r assume "r < length xss"
  then have r: "r < 9" using assms by (simp add: square9_length)
  show "xss ! r = yss ! r"
    by (rule nth_equalityI) (use r assms in \<open>auto simp: square9_row\<close>)
qed

lemma wf_empty_grid: "wf_grid empty_grid"
  by (simp add: wf_grid_def empty_grid_def square9_def list_all_iff)

lemma wf_parse_cell: "wf_grid g \<Longrightarrow> wf_grid (parse_cell s i g)"
  by (simp add: wf_grid_def parse_cell_def Let_def square9_update)

lemma parse_cell_same: "wf_grid g \<Longrightarrow> i < 81 \<Longrightarrow> cell_spec s i (parse_cell s i g)"
  by (simp add: cell_spec_def parse_cell_def Let_def wf_grid_def square9_nth_update less_mult_imp_div_less)

lemma parse_cell_other:
  "wf_grid g \<Longrightarrow> i < 81 \<Longrightarrow> j \<noteq> i \<Longrightarrow> cell_spec s j g \<Longrightarrow> cell_spec s j (parse_cell s i g)"
proof -
  assume a: "wf_grid g" "i < 81" "j \<noteq> i" "cell_spec s j g"
  have ne: "\<not> (j div 9 = i div 9 \<and> j mod 9 = i mod 9)"
    using a(3) by (metis div_mult_mod_eq)
  have id: "i div 9 < 9" using a(2) by (simp add: less_mult_imp_div_less)
  show ?thesis
    using a(1,4) ne id
    by (auto simp: cell_spec_def parse_cell_def Let_def wf_grid_def square9_nth_update)
qed

lemma parse_prefix:
  "k \<le> 81 \<Longrightarrow> wf_grid (fold (parse_cell s) [0..<k] empty_grid) \<and>
     (\<forall>i<k. cell_spec s i (fold (parse_cell s) [0..<k] empty_grid))"
proof (induction k)
  case 0
  then show ?case by (simp add: wf_empty_grid)
next
  case (Suc k)
  then have ih: "wf_grid (fold (parse_cell s) [0..<k] empty_grid)"
    "\<And>i. i < k \<Longrightarrow> cell_spec s i (fold (parse_cell s) [0..<k] empty_grid)" and k: "k < 81"
    by auto
  show ?case
    using ih k by (auto simp: wf_parse_cell parse_cell_same parse_cell_other less_Suc_eq)
qed

lemma parse_cell_cong: "s ! i = t ! i \<Longrightarrow> parse_cell s i = parse_cell t i"
  by (rule ext) (simp add: parse_cell_def)

lemma fold_parse_cong:
  "(\<And>i. i < k \<Longrightarrow> s ! i = t ! i) \<Longrightarrow> fold (parse_cell s) [0..<k] g = fold (parse_cell t) [0..<k] g"
  by (rule fold_cong) (auto intro: parse_cell_cong)

text \<open>
  Claim C7. Construction from a string fails with the invalid-argument error exactly when
  the string has fewer than 81 characters. Otherwise it succeeds with a 9x9 grid in which
  cell \<open>(r, c)\<close> comes from character \<open>9 r + c\<close>: the \<open>k\<close>-th of the characters
  \<open>'1'..'9'\<close> gives the value \<open>k + 1\<close> and a fixed cell, any other character gives the
  value 0 and a non-fixed cell; and whatever follows the first 81 characters does not
  change the grid.
\<close>

theorem grid_of_string_spec:
  "(grid_of_string s = Inl Invalid_Argument \<longleftrightarrow> length s < 81) \<and>
   ((\<exists>g. grid_of_string s = Inr g) \<longleftrightarrow> 81 \<le> length s) \<and>
   (81 \<le> length s \<longrightarrow>
     (\<exists>g. grid_of_string s = Inr g \<and> wf_grid g \<and>
        (\<forall>r<9. \<forall>c<9.
           (\<forall>k<9. s ! (r * 9 + c) = ''123456789'' ! k \<longrightarrow> get g r c = int k + 1 \<and> is_fixed g r c) \<and>
           (s ! (r * 9 + c) \<notin> set ''123456789'' \<longrightarrow> get g r c = 0 \<and> \<not> is_fixed g r c)) \<and>
        (\<forall>t. grid_of_string (take 81 s @ t) = Inr g)))"
proof -
  let ?g = "fold (parse_cell s) [0..<81] empty_grid"
  have fail: "grid_of_string s = Inl Invalid_Argument \<longleftrightarrow> length s < 81"
    by (simp add: grid_of_string_def)
  have ok: "(\<exists>g. grid_of_string s = Inr g) \<longleftrightarrow> 81 \<le> length s"
    by (auto simp: grid_of_string_def)
  have main: "\<exists>g. grid_of_string s = Inr g \<and> wf_grid g \<and>
        (\<forall>r<9. \<forall>c<9.
           (\<forall>k<9. s ! (r * 9 + c) = ''123456789'' ! k \<longrightarrow> get g r c = int k + 1 \<and> is_fixed g r c) \<and>
           (s ! (r * 9 + c) \<notin> set ''123456789'' \<longrightarrow> get g r c = 0 \<and> \<not> is_fixed g r c)) \<and>
        (\<forall>t. grid_of_string (take 81 s @ t) = Inr g)" if len: "81 \<le> length s"
  proof (intro exI[of _ ?g] conjI allI impI)
    show "grid_of_string s = Inr ?g" using len by (simp add: grid_of_string_def)
    show "wf_grid ?g" using parse_prefix[of 81 s] by simp
    show "grid_of_string (take 81 s @ t) = Inr ?g" for t
    proof -
      have "fold (parse_cell (take 81 s @ t)) [0..<81] empty_grid = ?g"
        by (rule fold_parse_cong) (use len in \<open>simp add: nth_append\<close>)
      then show ?thesis using len by (simp add: grid_of_string_def)
    qed
  next
    fix r c k :: nat assume rc: "r < 9" "c < 9" and k: "k < 9" and e: "s ! (r * 9 + c) = ''123456789'' ! k"
    have i: "r * 9 + c < 81" using rc by simp
    have sp: "cell_spec s (r * 9 + c) ?g" using parse_prefix[of 81 s] i by simp
    have "''123456789'' ! k \<in> set ''123456789''"
      by (rule nth_mem) (use k in simp)
    then have dg: "is_digit_char (s ! (r * 9 + c))"
      unfolding is_digit_char_iff e .
    show "get ?g r c = int k + 1" "is_fixed ?g r c"
      using sp dg rc k by (simp_all add: cell_spec_def get_def is_fixed_def e digit_value_nth)
  next
    fix r c :: nat assume rc: "r < 9" "c < 9" and e: "s ! (r * 9 + c) \<notin> set ''123456789''"
    have i: "r * 9 + c < 81" using rc by simp
    have sp: "cell_spec s (r * 9 + c) ?g" using parse_prefix[of 81 s] i by simp
    show "get ?g r c = 0" "\<not> is_fixed ?g r c"
      using sp e rc by (simp_all add: cell_spec_def get_def is_fixed_def is_digit_char_iff)
  qed
  show ?thesis using fail ok main by blast
qed

theorem grid_of_string_spec_witness:
  "81 \<le> length example_puzzle \<and>
   (\<exists>g. grid_of_string example_puzzle = Inr g \<and> wf_grid g \<and>
        get g 0 3 = 2 \<and> is_fixed g 0 3 \<and> get g 0 0 = 0 \<and> \<not> is_fixed g 0 0 \<and>
        grid_of_string (take 81 example_puzzle @ ''junk'') = Inr g)"
proof -
  have len: "81 \<le> length example_puzzle" by (simp add: example_puzzle_def)
  from grid_of_string_spec[of example_puzzle] len obtain g where
    g: "grid_of_string example_puzzle = Inr g" "wf_grid g"
    and cellsg: "\<And>r c. r < 9 \<Longrightarrow> c < 9 \<Longrightarrow>
           (\<forall>k<9. example_puzzle ! (r * 9 + c) = ''123456789'' ! k \<longrightarrow> get g r c = int k + 1 \<and> is_fixed g r c) \<and>
           (example_puzzle ! (r * 9 + c) \<notin> set ''123456789'' \<longrightarrow> get g r c = 0 \<and> \<not> is_fixed g r c)"
    and tl: "\<And>t. grid_of_string (take 81 example_puzzle @ t) = Inr g"
    by blast
  have a: "get g 0 3 = 2 \<and> is_fixed g 0 3"
    using cellsg[of 0 3, THEN conjunct1, rule_format, of 1] by (simp add: example_puzzle_def)
  have b: "get g 0 0 = 0 \<and> \<not> is_fixed g 0 0"
    using cellsg[of 0 0, THEN conjunct2] by (simp add: example_puzzle_def)
  show ?thesis using len g a b tl by blast
qed

lemma solved_grid_of_string: "grid_of_string solved_puzzle = Inr solved_grid"
  by code_simp

lemma score_solved: "get_total_score solved_grid = 162"
  by code_simp

lemma count_unique_loop_card:
  "finite seen \<Longrightarrow>
   count_unique_loop vs seen cnt = cnt + int (card ((set vs \<inter> {1..9}) - seen))"
proof (induction vs arbitrary: seen cnt)
  case Nil
  then show ?case by simp
next
  case (Cons v vs)
  show ?case
  proof (cases "1 \<le> v \<and> v \<le> 9 \<and> v \<notin> seen")
    case True
    have eq: "(set (v # vs) \<inter> {1..9}) - seen = insert v ((set vs \<inter> {1..9}) - insert v seen)"
      using True by auto
    have "card ((set (v # vs) \<inter> {1..9}) - seen) = Suc (card ((set vs \<inter> {1..9}) - insert v seen))"
      unfolding eq by (rule card_insert_disjoint) auto
    then show ?thesis using True Cons.IH[of "insert v seen" "cnt + 1"] Cons.prems by simp
  next
    case False
    have eq: "(set (v # vs) \<inter> {1..9}) - seen = (set vs \<inter> {1..9}) - seen"
      using False by auto
    show ?thesis using False Cons.IH[of seen cnt] Cons.prems by (simp only: eq count_unique_loop.simps if_False)
  qed
qed

lemma count_unique_card: "count_unique vs = int (card (set vs \<inter> {1..9}))"
  by (simp add: count_unique_def count_unique_loop_card)

lemma card_digits: "card {1..9::int} = 9"
  by simp

lemma count_unique_bounds: "0 \<le> count_unique vs \<and> count_unique vs \<le> 9"
proof -
  have "card (set vs \<inter> {1..9::int}) \<le> card {1..9::int}"
    by (rule card_mono) auto
  then show ?thesis by (simp add: count_unique_card)
qed

lemma count_unique_full:
  assumes "length vs = 9"
  shows "count_unique vs = 9 \<longleftrightarrow> distinct vs \<and> set vs \<subseteq> {1..9}"
proof
  assume "count_unique vs = 9"
  then have c: "card (set vs \<inter> {1..9}) = 9" by (simp add: count_unique_card)
  have "card (set vs \<inter> {1..9}) \<le> card (set vs)" by (rule card_mono) auto
  moreover have "card (set vs) \<le> length vs" by (rule card_length)
  ultimately have cs: "card (set vs) = length vs" using c assms by linarith
  then have d: "distinct vs" by (rule card_distinct)
  have "set vs \<inter> {1..9} = set vs"
    by (rule card_subset_eq) (use c cs assms in auto)
  then show "distinct vs \<and> set vs \<subseteq> {1..9}" using d by auto
next
  assume a: "distinct vs \<and> set vs \<subseteq> {1..9}"
  then have "set vs \<inter> {1..9} = set vs" by auto
  then show "count_unique vs = 9"
    using a assms by (simp add: count_unique_card distinct_card)
qed

lemma total_score_sum:
  "get_total_score g =
     sum_list (map (get_row_score g) [0..<9]) + sum_list (map (get_column_score g) [0..<9])"
  by (simp add: get_total_score_def upt_9)

lemma sum_list_bounded_eq:
  fixes f :: "nat \<Rightarrow> int"
  assumes "\<And>i. i < n \<Longrightarrow> f i \<le> b"
  shows "sum_list (map f [0..<n]) \<le> int n * b \<and>
         (sum_list (map f [0..<n]) = int n * b \<longleftrightarrow> (\<forall>i<n. f i = b))"
  using assms
proof (induction n)
  case 0
  then show ?case by simp
next
  case (Suc n)
  have ih: "sum_list (map f [0..<n]) \<le> int n * b"
    "sum_list (map f [0..<n]) = int n * b \<longleftrightarrow> (\<forall>i<n. f i = b)"
    using Suc by auto
  have fn: "f n \<le> b" using Suc.prems by simp
  show ?case using ih fn by (auto simp: less_Suc_eq algebra_simps)
qed

lemma row_scores:
  "sum_list (map (get_row_score g) [0..<9]) \<le> 81 \<and>
   (sum_list (map (get_row_score g) [0..<9]) = 81 \<longleftrightarrow> (\<forall>i<9. get_row_score g i = 9))"
  using sum_list_bounded_eq[of 9 "get_row_score g" 9] count_unique_bounds
  by (simp add: get_row_score_def)

lemma column_scores:
  "sum_list (map (get_column_score g) [0..<9]) \<le> 81 \<and>
   (sum_list (map (get_column_score g) [0..<9]) = 81 \<longleftrightarrow> (\<forall>i<9. get_column_score g i = 9))"
  using sum_list_bounded_eq[of 9 "get_column_score g" 9] count_unique_bounds
  by (simp add: get_column_score_def)

lemma total_score_nonneg: "0 \<le> get_total_score g"
proof -
  have "0 \<le> sum_list (map (get_row_score g) [0..<9])"
    by (rule sum_list_nonneg) (auto simp: get_row_score_def count_unique_bounds)
  moreover have "0 \<le> sum_list (map (get_column_score g) [0..<9])"
    by (rule sum_list_nonneg) (auto simp: get_column_score_def count_unique_bounds)
  ultimately show ?thesis by (simp add: total_score_sum)
qed

lemma total_score_max_iff:
  "get_total_score g \<le> 162 \<and>
   (get_total_score g = 162 \<longleftrightarrow>
      (\<forall>i<9. get_row_score g i = 9) \<and> (\<forall>i<9. get_column_score g i = 9))"
proof -
  define a where "a = sum_list (map (get_row_score g) [0..<9])"
  define b where "b = sum_list (map (get_column_score g) [0..<9])"
  have ra: "a \<le> 81" "a = 81 \<longleftrightarrow> (\<forall>i<9. get_row_score g i = 9)"
    using row_scores[of g] by (simp_all add: a_def)
  have rb: "b \<le> 81" "b = 81 \<longleftrightarrow> (\<forall>i<9. get_column_score g i = 9)"
    using column_scores[of g] by (simp_all add: b_def)
  have "a + b = 162 \<longleftrightarrow> a = 81 \<and> b = 81" using ra(1) rb(1) by linarith
  then show ?thesis
    using ra rb unfolding total_score_sum a_def[symmetric] b_def[symmetric] by simp
qed

lemma length_column_of: "length (column_of g c) = 9"
  by (simp add: column_of_def)

text \<open>
  Claim C4 (amended). For every 9x9 grid, \<open>get_total_score\<close> lies between 0 and 162; it
  equals 162 exactly when every row and every column holds nine distinct digits of 1..9;
  \<open>is_solved\<close> holds exactly when the score is 162. \<open>Chromosome::is_solution\<close> holds
  exactly when the cached fitness is 162, which is the grid's score once
  \<open>recalculate_fitness\<close> has run.
\<close>

theorem total_score_spec:
  assumes "wf_grid g"
  shows "0 \<le> get_total_score g \<and> get_total_score g \<le> 162 \<and>
    (get_total_score g = 162 \<longleftrightarrow>
       (\<forall>i<9. distinct (cells g ! i) \<and> set (cells g ! i) \<subseteq> {1..9}) \<and>
       (\<forall>i<9. distinct (column_of g i) \<and> set (column_of g i) \<subseteq> {1..9})) \<and>
    (is_solved g \<longleftrightarrow> get_total_score g = 162) \<and>
    (is_solution c \<longleftrightarrow> fitness c = 162) \<and>
    (is_solution (recalculate_fitness (c\<lparr>grid := g\<rparr>)) \<longleftrightarrow> get_total_score g = 162)"
proof -
  have rows: "get_row_score g i = 9 \<longleftrightarrow> distinct (cells g ! i) \<and> set (cells g ! i) \<subseteq> {1..9}"
    if "i < 9" for i
    unfolding get_row_score_def
    by (rule count_unique_full) (use assms that in \<open>simp add: wf_grid_def square9_row\<close>)
  have cols: "get_column_score g i = 9 \<longleftrightarrow> distinct (column_of g i) \<and> set (column_of g i) \<subseteq> {1..9}"
    for i
    unfolding get_column_score_def by (rule count_unique_full) (rule length_column_of)
  have iff: "get_total_score g = 162 \<longleftrightarrow>
       (\<forall>i<9. distinct (cells g ! i) \<and> set (cells g ! i) \<subseteq> {1..9}) \<and>
       (\<forall>i<9. distinct (column_of g i) \<and> set (column_of g i) \<subseteq> {1..9})"
    using total_score_max_iff[of g] rows cols by auto
  have sol: "is_solution (recalculate_fitness (c\<lparr>grid := g\<rparr>)) \<longleftrightarrow> get_total_score g = 162"
    by (simp add: is_solution_def fitness_def recalculate_fitness_def)
  show ?thesis
    using total_score_nonneg[of g] total_score_max_iff[of g] iff sol
    by (simp add: is_solved_def is_solution_def)
qed

theorem total_score_spec_witness:
  "wf_grid solved_grid \<and> get_total_score solved_grid = 162 \<and> is_solved solved_grid \<and>
   distinct (column_of solved_grid 4) \<and>
   is_solution (recalculate_fitness (Chromosome_of_puzzle solved_grid))"
proof -
  have wf: "wf_grid solved_grid"
    by (simp add: wf_grid_def square9_def solved_grid_def list_all_iff)
  have sc: "get_total_score solved_grid = 162" by (rule score_solved)
  have e: "(Chromosome_of_puzzle solved_grid)\<lparr>grid := solved_grid\<rparr> = Chromosome_of_puzzle solved_grid"
    by (simp add: Chromosome_of_puzzle_def)
  show ?thesis
    using total_score_spec[OF wf, of "Chromosome_of_puzzle solved_grid"] wf sc unfolding e by auto
qed

text \<open>
  The claim as stated fails for a chromosome whose cache is stale: a chromosome built from
  the completed grid by the constructor \<open>Chromosome(const SudokuGrid&)\<close> caches 0, so
  \<open>is_solution\<close> is false although the grid scores 162.
\<close>

theorem is_solution_stale_counterexample:
  "\<not> (is_solution (Chromosome_of_puzzle solved_grid) \<longleftrightarrow>
       get_total_score (grid (Chromosome_of_puzzle solved_grid)) = 162)"
  by (simp add: is_solution_def fitness_def Chromosome_of_puzzle_def score_solved)

section \<open>Cells and sub-blocks\<close>

lemma upt_3: "[n..<n + 3] = [n, n + 1, n + 2]"
  by (simp add: upt_rec)

lemma get_set_cell:
  "wf_grid g \<Longrightarrow> r < 9 \<Longrightarrow> c < 9 \<Longrightarrow>
   get (set_cell g r c v) r' c' = (if r' = r \<and> c' = c then v else get g r' c')"
  by (simp add: get_def set_cell_def wf_grid_def square9_nth_update)

lemma fixed_set_cell: "fixed (set_cell g r c v) = fixed g"
  by (simp add: set_cell_def)

lemma wf_set_cell: "wf_grid g \<Longrightarrow> wf_grid (set_cell g r c v)"
  by (simp add: wf_grid_def set_cell_def square9_update)

lemma grid_eqI:
  assumes "wf_grid g" "wf_grid h"
    and "\<And>r c. r < 9 \<Longrightarrow> c < 9 \<Longrightarrow> get g r c = get h r c"
    and "\<And>r c. r < 9 \<Longrightarrow> c < 9 \<Longrightarrow> is_fixed g r c = is_fixed h r c"
  shows "g = h"
proof -
  have "cells g = cells h"
    by (rule square9_eqI) (use assms in \<open>auto simp: wf_grid_def get_def\<close>)
  moreover have "fixed g = fixed h"
    by (rule square9_eqI) (use assms in \<open>auto simp: wf_grid_def is_fixed_def\<close>)
  ultimately show ?thesis by simp
qed

lemma subblock_cells_iff:
  "(r, c) \<in> set (subblock_cells b) \<longleftrightarrow> r div 3 = b div 3 \<and> c div 3 = b mod 3"
proof -
  have d: "(y * 3 \<le> x \<and> x < y * 3 + 3) \<longleftrightarrow> x div 3 = y" for x y :: nat
    by auto
  have "(r, c) \<in> set (subblock_cells b) \<longleftrightarrow>
        (b div 3 * 3 \<le> r \<and> r < b div 3 * 3 + 3) \<and> (b mod 3 * 3 \<le> c \<and> c < b mod 3 * 3 + 3)"
    by (force simp: subblock_cells_def subblock_top_left_def Let_def)
  then show ?thesis unfolding d .
qed

lemma div3_less: "(x::nat) div 3 < 3 \<longleftrightarrow> x < 9"
  by (simp add: div_less_iff_less_mult)

lemma subblock_cells_bounds:
  assumes "b < 9" "(r, c) \<in> set (subblock_cells b)"
  shows "r < 9 \<and> c < 9"
proof -
  have "r div 3 < 3" using assms unfolding subblock_cells_iff by (simp add: div3_less)
  moreover have "c div 3 < 3" using assms unfolding subblock_cells_iff by simp
  ultimately show ?thesis by (simp add: div3_less)
qed

lemma distinct_subblock_cells: "distinct (subblock_cells b)"
  by (auto simp: subblock_cells_def subblock_top_left_def Let_def upt_3 )

lemma length_subblock_cells: "length (subblock_cells b) = 9"
  by (simp add: subblock_cells_def subblock_top_left_def Let_def upt_3)

lemma subblock_of_cell:
  "r < 9 \<Longrightarrow> c < 9 \<Longrightarrow> (r, c) \<in> set (subblock_cells (3 * (r div 3) + c div 3))"
proof -
  assume "r < 9" "c < 9"
  then have "c div 3 < 3" by simp
  then show ?thesis unfolding subblock_cells_iff by simp
qed

section \<open>Crossover\<close>

lemma band_rows: "band < 3 \<Longrightarrow> r div 3 = band \<longleftrightarrow> r = band * 3 \<or> r = band * 3 + 1 \<or> r = band * 3 + 2"
  for r band :: nat
  by auto

lemma copy_row_band_cells:
  assumes "wf_grid g" "band < 3"
  shows "cells (copy_row_band_from g other band) ! r =
           (if r div 3 = band then cells other ! r else cells g ! r)"
proof -
  have len: "length (cells g) = 9" using assms by (simp add: wf_grid_def square9_length)
  show ?thesis
    using assms(2) len
    by (auto simp: copy_row_band_from_def Let_def upt_3 band_rows nth_list_update)
qed

lemma copy_row_band_fixed:
  assumes "wf_grid g" "band < 3"
  shows "fixed (copy_row_band_from g other band) ! r =
           (if r div 3 = band then fixed other ! r else fixed g ! r)"
proof -
  have len: "length (fixed g) = 9" using assms by (simp add: wf_grid_def square9_length)
  show ?thesis
    using assms(2) len
    by (auto simp: copy_row_band_from_def Let_def upt_3 band_rows nth_list_update)
qed

lemma wf_copy_row_band:
  assumes "wf_grid g" "wf_grid other" "band < 3"
  shows "wf_grid (copy_row_band_from g other band)"
proof -
  have "length (cells other ! r) = 9" "length (fixed other ! r) = 9" if "r < 9" for r
    using assms(2) that by (simp_all add: wf_grid_def square9_row)
  then show ?thesis
    using assms(1,3)
    by (simp add: copy_row_band_from_def Let_def upt_3 wf_grid_def square9_update_row)
qed


lemma crossover_band_cells:
  assumes "wf_grid (grid ch)" "band < 3"
  shows "cells (grid (crossover_band p1 p2 band ch)) ! r =
           (if r div 3 = band \<and> band_parent p1 p2 band = p2 \<and> p2 \<noteq> p1
            then cells (grid p2) ! r else cells (grid ch) ! r)"
    and "fixed (grid (crossover_band p1 p2 band ch)) ! r =
           (if r div 3 = band \<and> band_parent p1 p2 band = p2 \<and> p2 \<noteq> p1
            then fixed (grid p2) ! r else fixed (grid ch) ! r)"
  using assms
  by (auto simp: crossover_band_def band_parent_def Let_def copy_row_band_cells copy_row_band_fixed)

lemma wf_crossover_band:
  "wf_grid (grid ch) \<Longrightarrow> wf_grid (grid p2) \<Longrightarrow> band < 3 \<Longrightarrow>
   wf_grid (grid (crossover_band p1 p2 band ch))"
  by (simp add: crossover_band_def Let_def wf_copy_row_band)

lemma fitness_crossover_band: "cached_fitness (crossover_band p1 p2 band ch) = cached_fitness ch"
  by (simp add: crossover_band_def Let_def)

lemma upt_0_3: "[0..<3] = [0, 1, 2]"
  by (simp add: upt_rec)

lemma child1_rows:
  assumes "wf_grid (grid p1)" "wf_grid (grid p2)" "r < 9"
  shows "cells (grid (fold (crossover_band p1 p2) [0..<3] p1)) ! r =
           cells (grid (band_parent p1 p2 (r div 3))) ! r"
    and "fixed (grid (fold (crossover_band p1 p2) [0..<3] p1)) ! r =
           fixed (grid (band_parent p1 p2 (r div 3))) ! r"
proof -
  let ?c0 = "crossover_band p1 p2 0 p1"
  let ?c1 = "crossover_band p1 p2 1 ?c0"
  have w0: "wf_grid (grid ?c0)" using assms by (simp add: wf_crossover_band)
  have w1: "wf_grid (grid ?c1)" using assms w0 by (simp add: wf_crossover_band)
  have r3: "r div 3 = 0 \<or> r div 3 = 1 \<or> r div 3 = 2"
    using assms(3) div3_less[of r] by auto
  show "cells (grid (fold (crossover_band p1 p2) [0..<3] p1)) ! r =
           cells (grid (band_parent p1 p2 (r div 3))) ! r"
    using r3 assms(1) w0 w1
    by (auto simp: upt_0_3 crossover_band_cells band_parent_def)
  show "fixed (grid (fold (crossover_band p1 p2) [0..<3] p1)) ! r =
           fixed (grid (band_parent p1 p2 (r div 3))) ! r"
    using r3 assms(1) w0 w1
    by (auto simp: upt_0_3 crossover_band_cells band_parent_def)
qed

lemma wf_child1:
  assumes "wf_grid (grid p1)" "wf_grid (grid p2)"
  shows "wf_grid (grid (fold (crossover_band p1 p2) [0..<3] p1))"
  using assms by (simp add: upt_0_3 wf_crossover_band)


lemma wf_copy_cell_from: "wf_grid g \<Longrightarrow> wf_grid (copy_cell_from other p g)"
  by (cases p) (simp add: copy_cell_from_def wf_grid_def square9_update)

lemma copy_cell_from_cells:
  assumes "wf_grid g" "fst p < 9" "snd p < 9"
  shows "cells (copy_cell_from other p g) ! r ! c =
           (if (r, c) = p then cells other ! r ! c else cells g ! r ! c)"
    and "fixed (copy_cell_from other p g) ! r ! c =
           (if (r, c) = p then fixed other ! r ! c else fixed g ! r ! c)"
  using assms
  by (cases p; auto simp: copy_cell_from_def wf_grid_def square9_nth_update)+

lemma fold_copy_cell_from:
  assumes "wf_grid g" "\<forall>p\<in>set ps. fst p < 9 \<and> snd p < 9"
  shows "wf_grid (fold (copy_cell_from other) ps g) \<and>
         cells (fold (copy_cell_from other) ps g) ! r ! c =
           (if (r, c) \<in> set ps then cells other ! r ! c else cells g ! r ! c) \<and>
         fixed (fold (copy_cell_from other) ps g) ! r ! c =
           (if (r, c) \<in> set ps then fixed other ! r ! c else fixed g ! r ! c)"
  using assms
proof (induction ps arbitrary: g)
  case Nil
  then show ?case by simp
next
  case (Cons p ps)
  have w: "wf_grid (copy_cell_from other p g)" using Cons.prems by (simp add: wf_copy_cell_from)
  have b: "fst p < 9" "snd p < 9" using Cons.prems by auto
  have ih: "wf_grid (fold (copy_cell_from other) ps (copy_cell_from other p g)) \<and>
         cells (fold (copy_cell_from other) ps (copy_cell_from other p g)) ! r ! c =
           (if (r, c) \<in> set ps then cells other ! r ! c else cells (copy_cell_from other p g) ! r ! c) \<and>
         fixed (fold (copy_cell_from other) ps (copy_cell_from other p g)) ! r ! c =
           (if (r, c) \<in> set ps then fixed other ! r ! c else fixed (copy_cell_from other p g) ! r ! c)"
    using Cons.IH[OF w] Cons.prems(2) by simp
  show ?case
    using ih copy_cell_from_cells[OF Cons.prems(1) b, of other r c]
    by auto
qed

lemma stack_cells_iff:
  "(r, c) \<in> set (concat (map (\<lambda>row. map (\<lambda>c. (row, c)) [s * 3..<s * 3 + 3]) [0..<9]))
     \<longleftrightarrow> r < 9 \<and> c div 3 = s"
proof -
  have d: "(y * 3 \<le> x \<and> x < y * 3 + 3) \<longleftrightarrow> x div 3 = y" for x y :: nat
    by auto
  have "(r, c) \<in> set (concat (map (\<lambda>row. map (\<lambda>c. (row, c)) [s * 3..<s * 3 + 3]) [0..<9]))
     \<longleftrightarrow> r < 9 \<and> (s * 3 \<le> c \<and> c < s * 3 + 3)"
    by force
  then show ?thesis unfolding d .
qed

lemma copy_column_stack:
  assumes "wf_grid g" "stack < 3"
  shows "wf_grid (copy_column_stack_from g other stack)"
    and "cells (copy_column_stack_from g other stack) ! r ! c =
           (if r < 9 \<and> c div 3 = stack then cells other ! r ! c else cells g ! r ! c)"
    and "fixed (copy_column_stack_from g other stack) ! r ! c =
           (if r < 9 \<and> c div 3 = stack then fixed other ! r ! c else fixed g ! r ! c)"
proof -
  let ?ps = "concat (map (\<lambda>row. map (\<lambda>c. (row, c)) [stack * 3..<stack * 3 + 3]) [0..<9])"
  have b: "\<forall>p\<in>set ?ps. fst p < 9 \<and> snd p < 9"
  proof
    fix p assume "p \<in> set ?ps"
    then have "fst p < 9 \<and> snd p div 3 = stack"
      using stack_cells_iff[of "fst p" "snd p" stack] by simp
    then show "fst p < 9 \<and> snd p < 9" using assms(2) div3_less[of "snd p"] by auto
  qed
  note f = fold_copy_cell_from[OF assms(1) b, of other r c]
  show "wf_grid (copy_column_stack_from g other stack)"
    using f by (simp add: copy_column_stack_from_def Let_def)
  show "cells (copy_column_stack_from g other stack) ! r ! c =
           (if r < 9 \<and> c div 3 = stack then cells other ! r ! c else cells g ! r ! c)"
    using f unfolding stack_cells_iff by (simp add: copy_column_stack_from_def Let_def)
  show "fixed (copy_column_stack_from g other stack) ! r ! c =
           (if r < 9 \<and> c div 3 = stack then fixed other ! r ! c else fixed g ! r ! c)"
    using f unfolding stack_cells_iff by (simp add: copy_column_stack_from_def Let_def)
qed

lemma crossover_stack_cells:
  assumes "wf_grid (grid ch)" "stack < 3" "r < 9"
  shows "wf_grid (grid (crossover_stack p1 p2 stack ch))"
    and "cells (grid (crossover_stack p1 p2 stack ch)) ! r ! c =
           (if c div 3 = stack then cells (grid (stack_parent p1 p2 stack)) ! r ! c
            else cells (grid ch) ! r ! c)"
    and "fixed (grid (crossover_stack p1 p2 stack ch)) ! r ! c =
           (if c div 3 = stack then fixed (grid (stack_parent p1 p2 stack)) ! r ! c
            else fixed (grid ch) ! r ! c)"
  using assms
  by (simp_all add: crossover_stack_def stack_parent_def Let_def copy_column_stack)

lemma fitness_crossover_stack: "cached_fitness (crossover_stack p1 p2 stack ch) = cached_fitness ch"
  by (simp add: crossover_stack_def Let_def)

lemma child2_cells:
  assumes "wf_grid (grid p1)" "r < 9" "c < 9"
  shows "wf_grid (grid (fold (crossover_stack p1 p2) [0..<3] p1))"
    and "cells (grid (fold (crossover_stack p1 p2) [0..<3] p1)) ! r ! c =
           cells (grid (stack_parent p1 p2 (c div 3))) ! r ! c"
    and "fixed (grid (fold (crossover_stack p1 p2) [0..<3] p1)) ! r ! c =
           fixed (grid (stack_parent p1 p2 (c div 3))) ! r ! c"
proof -
  let ?c0 = "crossover_stack p1 p2 0 p1"
  let ?c1 = "crossover_stack p1 p2 1 ?c0"
  have w0: "wf_grid (grid ?c0)" using assms by (simp add: crossover_stack_cells(1))
  have w1: "wf_grid (grid ?c1)" using assms w0 by (simp add: crossover_stack_cells(1))
  have c3: "c div 3 = 0 \<or> c div 3 = 1 \<or> c div 3 = 2"
    using assms(3) div3_less[of c] by auto
  show "wf_grid (grid (fold (crossover_stack p1 p2) [0..<3] p1))"
    using w1 assms(2) by (simp add: upt_0_3 crossover_stack_cells(1))
  show "cells (grid (fold (crossover_stack p1 p2) [0..<3] p1)) ! r ! c =
           cells (grid (stack_parent p1 p2 (c div 3))) ! r ! c"
    using c3 assms(1,2) w0 w1 by (auto simp: upt_0_3 crossover_stack_cells)
  show "fixed (grid (fold (crossover_stack p1 p2) [0..<3] p1)) ! r ! c =
           fixed (grid (stack_parent p1 p2 (c div 3))) ! r ! c"
    using c3 assms(1,2) w0 w1 by (auto simp: upt_0_3 crossover_stack_cells)
qed


lemma example_grid_of_string: "grid_of_string example_puzzle = Inr example_grid"
  by code_simp

lemma wf_example_grid: "wf_grid example_grid"
  by (simp add: wf_grid_def square9_def example_grid_def example_cells_def)

lemma wf_solved_grid: "wf_grid solved_grid"
  by (simp add: wf_grid_def square9_def solved_grid_def list_all_iff)

text \<open>
  Claim C5. For two parents with 9x9 grids, \<open>crossover\<close> returns two children with 9x9
  grids such that: every row of child1 (values and mask) is the row of parent2 when
  parent2's score for the row's band strictly exceeds parent1's, and the row of parent1
  otherwise; every cell of child2 (value and mask) is the cell of parent2 when parent2's
  score for the cell's column stack strictly exceeds parent1's, and the cell of parent1
  otherwise (ties keep parent1); and the cached fitness of each child is the total score
  of its grid.
\<close>

theorem crossover_spec:
  assumes "wf_grid (grid parent1)" "wf_grid (grid parent2)"
    and "crossover parent1 parent2 = (child1, child2)"
  shows "wf_grid (grid child1) \<and> wf_grid (grid child2) \<and>
    (\<forall>r<9. if get_row_band_score (grid parent2) (r div 3) > get_row_band_score (grid parent1) (r div 3)
           then cells (grid child1) ! r = cells (grid parent2) ! r \<and>
                fixed (grid child1) ! r = fixed (grid parent2) ! r
           else cells (grid child1) ! r = cells (grid parent1) ! r \<and>
                fixed (grid child1) ! r = fixed (grid parent1) ! r) \<and>
    (\<forall>r<9. \<forall>c<9.
       if get_column_stack_score (grid parent2) (c div 3) > get_column_stack_score (grid parent1) (c div 3)
       then get (grid child2) r c = get (grid parent2) r c \<and>
            is_fixed (grid child2) r c = is_fixed (grid parent2) r c
       else get (grid child2) r c = get (grid parent1) r c \<and>
            is_fixed (grid child2) r c = is_fixed (grid parent1) r c) \<and>
    fitness child1 = get_total_score (grid child1) \<and>
    fitness child2 = get_total_score (grid child2)"
proof -
  let ?k1 = "fold (crossover_band parent1 parent2) [0..<3] parent1"
  let ?k2 = "fold (crossover_stack parent1 parent2) [0..<3] parent1"
  have c1: "child1 = recalculate_fitness ?k1" and c2: "child2 = recalculate_fitness ?k2"
    using assms(3) by (simp_all add: crossover_def Let_def)
  have g1: "grid child1 = grid ?k1" and g2: "grid child2 = grid ?k2"
    by (simp_all add: c1 c2 recalculate_fitness_def)
  have w1: "wf_grid (grid child1)" unfolding g1 using assms(1,2) by (rule wf_child1)
  have w2: "wf_grid (grid child2)" unfolding g2 using child2_cells(1)[OF assms(1), of 0 0] by simp
  have rows: "\<forall>r<9. if get_row_band_score (grid parent2) (r div 3) > get_row_band_score (grid parent1) (r div 3)
           then cells (grid child1) ! r = cells (grid parent2) ! r \<and>
                fixed (grid child1) ! r = fixed (grid parent2) ! r
           else cells (grid child1) ! r = cells (grid parent1) ! r \<and>
                fixed (grid child1) ! r = fixed (grid parent1) ! r"
    unfolding g1 using child1_rows[OF assms(1,2)] by (simp add: band_parent_def)
  have cols: "\<forall>r<9. \<forall>c<9.
       if get_column_stack_score (grid parent2) (c div 3) > get_column_stack_score (grid parent1) (c div 3)
       then get (grid child2) r c = get (grid parent2) r c \<and>
            is_fixed (grid child2) r c = is_fixed (grid parent2) r c
       else get (grid child2) r c = get (grid parent1) r c \<and>
            is_fixed (grid child2) r c = is_fixed (grid parent1) r c"
    unfolding g2 get_def is_fixed_def using child2_cells(2,3)[OF assms(1)]
    by (simp add: stack_parent_def)
  have f: "fitness child1 = get_total_score (grid child1)" "fitness child2 = get_total_score (grid child2)"
    by (simp_all add: c1 c2 recalculate_fitness_def fitness_def)
  show ?thesis using w1 w2 rows cols f by blast
qed

lemma band_scores_example:
  "get_row_band_score example_grid 0 = 12" "get_row_band_score solved_grid 0 = 27"
  "get_column_stack_score example_grid 2 = 12" "get_column_stack_score solved_grid 2 = 27"
  by code_simp+

theorem crossover_spec_witness:
  "wf_grid (grid (Chromosome_of_puzzle example_grid)) \<and>
   wf_grid (grid (Chromosome_of_puzzle solved_grid)) \<and>
   (case crossover (Chromosome_of_puzzle example_grid) (Chromosome_of_puzzle solved_grid) of
      (child1, child2) \<Rightarrow>
        cells (grid child1) ! 0 = cells solved_grid ! 0 \<and>
        get (grid child2) 0 8 = get solved_grid 0 8 \<and>
        fitness child1 = get_total_score (grid child1) \<and>
        fitness child2 = get_total_score (grid child2))"
proof -
  let ?p1 = "Chromosome_of_puzzle example_grid" and ?p2 = "Chromosome_of_puzzle solved_grid"
  obtain child1 child2 where c: "crossover ?p1 ?p2 = (child1, child2)"
    by (cases "crossover ?p1 ?p2")
  have w1: "wf_grid (grid ?p1)" by (simp add: Chromosome_of_puzzle_def wf_example_grid)
  have w2: "wf_grid (grid ?p2)" by (simp add: Chromosome_of_puzzle_def wf_solved_grid)
  have g: "grid ?p1 = example_grid" "grid ?p2 = solved_grid"
    by (simp_all add: Chromosome_of_puzzle_def)
  note s = crossover_spec[OF w1 w2 c]
  have rows: "cells (grid child1) ! 0 = cells solved_grid ! 0"
    using s[THEN conjunct2, THEN conjunct2, THEN conjunct1, rule_format, of 0]
    by (simp add: g band_scores_example)
  have cols: "get (grid child2) 0 8 = get solved_grid 0 8"
    using s[THEN conjunct2, THEN conjunct2, THEN conjunct2, THEN conjunct1, rule_format, of 0 8]
    by (simp add: g band_scores_example)
  show ?thesis using w1 w2 rows cols s by (simp add: c)
qed

section \<open>Random draws and swaps\<close>

lemma rand_int_range:
  assumes "lo \<le> hi"
  shows "lo \<le> fst (rand_int lo hi r) \<and> fst (rand_int lo hi r) \<le> hi"
proof -
  obtain x r' where n: "next_raw r = (x, r')" by (cases "next_raw r")
  have pos: "0 < nat (hi - lo + 1)" using assms by simp
  have "x mod nat (hi - lo + 1) < nat (hi - lo + 1)" using pos by (rule mod_less_divisor)
  then have "int (x mod nat (hi - lo + 1)) < hi - lo + 1" using assms by linarith
  then show ?thesis by (simp add: rand_int_def n)
qed


lemma two_distinct_indices_range:
  assumes "1 \<le> m" "two_distinct_indices m r = ((i, j), r')"
  shows "0 \<le> i \<and> i \<le> m \<and> 0 \<le> j \<and> j \<le> m \<and> i \<noteq> j"
proof -
  obtain a r1 where a: "rand_int 0 m r = (a, r1)" by (cases "rand_int 0 m r")
  obtain b r2 where b: "rand_int 0 (m - 1) r1 = (b, r2)" by (cases "rand_int 0 (m - 1) r1")
  have ra: "0 \<le> a \<and> a \<le> m" using rand_int_range[of 0 m r] assms(1) a by simp
  have rb: "0 \<le> b \<and> b \<le> m - 1" using rand_int_range[of 0 "m - 1" r1] assms(1) b by simp
  have "i = a" "j = (if b \<ge> a then b + 1 else b)"
    using assms(2) by (auto simp: two_distinct_indices_def a b)
  then show ?thesis using ra rb by auto
qed

lemma get_set_cell_other:
  "(r', c') \<noteq> (r, c) \<Longrightarrow> get (set_cell g r c v) r' c' = get g r' c'"
proof (cases "r' = r")
  case False
  then show ?thesis by (simp add: get_def set_cell_def)
next
  case True
  assume "(r', c') \<noteq> (r, c)"
  then have c: "c' \<noteq> c" using True by simp
  show ?thesis
  proof (cases "r < length (cells g)")
    case True
    then show ?thesis using c \<open>r' = r\<close> by (simp add: get_def set_cell_def)
  next
    case False
    then show ?thesis by (simp add: get_def set_cell_def list_update_beyond)
  qed
qed

lemma swap_cells_get:
  assumes "wf_grid g" "fst p < 9" "snd p < 9" "fst q < 9" "snd q < 9"
  shows "get (swap_cells g p q) r c =
           (if (r, c) = q then get g (fst p) (snd p)
            else if (r, c) = p then get g (fst q) (snd q)
            else get g r c)"
  using assms
  by (cases p; cases q) (auto simp: swap_cells_def Let_def get_set_cell wf_set_cell)

lemma swap_cells_other:
  "(r, c) \<noteq> p \<Longrightarrow> (r, c) \<noteq> q \<Longrightarrow> get (swap_cells g p q) r c = get g r c"
  by (cases p; cases q) (simp add: swap_cells_def Let_def get_set_cell_other)

lemma swap_cells_fixed: "fixed (swap_cells g p q) = fixed g"
  by (cases p; cases q) (simp add: swap_cells_def Let_def fixed_set_cell)

lemma wf_swap_cells: "wf_grid g \<Longrightarrow> wf_grid (swap_cells g p q)"
  by (cases p; cases q) (simp add: swap_cells_def Let_def wf_set_cell)

lemma non_fixed_positions_set:
  "set (get_subblock_non_fixed_positions g b) =
     {p \<in> set (subblock_cells b). \<not> is_fixed g (fst p) (snd p)}"
  by (auto simp: get_subblock_non_fixed_positions_def is_fixed_def)

lemma distinct_non_fixed_positions: "distinct (get_subblock_non_fixed_positions g b)"
  by (simp add: get_subblock_non_fixed_positions_def distinct_subblock_cells)

section \<open>Mutation of one sub-block\<close>

lemma mutate_subblock_noop:
  "length (get_subblock_non_fixed_positions (grid chrom) b) < 2 \<Longrightarrow>
   mutate_subblock chrom b r = (chrom, r)"
  by (simp add: mutate_subblock_def)

lemma mutate_subblock_swap:
  assumes "\<not> length (get_subblock_non_fixed_positions (grid chrom) b) < 2"
    and "two_distinct_indices (int (length (get_subblock_non_fixed_positions (grid chrom) b)) - 1) r
           = ((i, j), r')"
  shows "mutate_subblock chrom b r =
           (chrom\<lparr>grid := swap_cells (grid chrom)
                (get_subblock_non_fixed_positions (grid chrom) b ! nat i)
                (get_subblock_non_fixed_positions (grid chrom) b ! nat j)\<rparr>, r')"
  using assms by (simp add: mutate_subblock_def Let_def)

lemma selected_positions:
  assumes "b < 9"
    and "\<not> length (get_subblock_non_fixed_positions g b) < 2"
    and "two_distinct_indices (int (length (get_subblock_non_fixed_positions g b)) - 1) r
           = ((i, j), r')"
  shows "0 \<le> i \<and> i < int (length (get_subblock_non_fixed_positions g b)) \<and>
         0 \<le> j \<and> j < int (length (get_subblock_non_fixed_positions g b)) \<and> i \<noteq> j"
    and "get_subblock_non_fixed_positions g b ! nat i \<noteq> get_subblock_non_fixed_positions g b ! nat j"
    and "get_subblock_non_fixed_positions g b ! nat i \<in> set (get_subblock_non_fixed_positions g b)"
    and "get_subblock_non_fixed_positions g b ! nat j \<in> set (get_subblock_non_fixed_positions g b)"
proof -
  let ?ps = "get_subblock_non_fixed_positions g b"
  have m: "1 \<le> int (length ?ps) - 1" using assms(2) by simp
  have rg: "0 \<le> i \<and> i \<le> int (length ?ps) - 1 \<and> 0 \<le> j \<and> j \<le> int (length ?ps) - 1 \<and> i \<noteq> j"
    using two_distinct_indices_range[OF m assms(3)] .
  then show bounds: "0 \<le> i \<and> i < int (length ?ps) \<and> 0 \<le> j \<and> j < int (length ?ps) \<and> i \<noteq> j"
    by simp
  have ni: "nat i < length ?ps" and nj: "nat j < length ?ps" and ne: "nat i \<noteq> nat j"
    using bounds by auto
  show "?ps ! nat i \<noteq> ?ps ! nat j"
    using ni nj ne distinct_non_fixed_positions[of g b] by (simp add: nth_eq_iff_index_eq)
  show "?ps ! nat i \<in> set ?ps" "?ps ! nat j \<in> set ?ps"
    using ni nj by simp_all
qed

text \<open>
  Claim C10. For a chromosome with a 9x9 grid and a sub-block index below 9,
  \<open>mutate_subblock\<close> leaves the fixed-cell mask as it is, and every cell that is fixed or
  lies outside the sub-block keeps its value. With fewer than two non-fixed positions the
  chromosome is returned unchanged; otherwise the two indices drawn are distinct and
  within the bounds of the list of non-fixed positions, the two positions they select are
  distinct, every cell other than these two keeps its value, and the two exchange theirs.
\<close>

theorem mutate_subblock_frame:
  assumes "wf_grid (grid chrom)" "subblock_index < 9"
    and "mutate_subblock chrom subblock_index r = (chrom', r')"
  shows "fixed (grid chrom') = fixed (grid chrom) \<and>
    (\<forall>row col. is_fixed (grid chrom) row col \<or> (row, col) \<notin> set (subblock_cells subblock_index)
        \<longrightarrow> get (grid chrom') row col = get (grid chrom) row col) \<and>
    (let positions = get_subblock_non_fixed_positions (grid chrom) subblock_index in
     if length positions < 2 then chrom' = chrom
     else (case fst (two_distinct_indices (int (length positions) - 1) r) of (idx1, idx2) \<Rightarrow>
       0 \<le> idx1 \<and> idx1 < int (length positions) \<and>
       0 \<le> idx2 \<and> idx2 < int (length positions) \<and> idx1 \<noteq> idx2 \<and>
       positions ! nat idx1 \<noteq> positions ! nat idx2 \<and>
       (\<forall>row col. (row, col) \<noteq> positions ! nat idx1 \<and> (row, col) \<noteq> positions ! nat idx2
           \<longrightarrow> get (grid chrom') row col = get (grid chrom) row col) \<and>
       (case positions ! nat idx1 of (r1, c1) \<Rightarrow> case positions ! nat idx2 of (r2, c2) \<Rightarrow>
          get (grid chrom') r1 c1 = get (grid chrom) r2 c2 \<and>
          get (grid chrom') r2 c2 = get (grid chrom) r1 c1)))"
proof (cases "length (get_subblock_non_fixed_positions (grid chrom) subblock_index) < 2")
  case True
  then have "chrom' = chrom" using assms(3) by (simp add: mutate_subblock_noop)
  then show ?thesis using True by simp
next
  case False
  let ?g = "grid chrom"
  let ?ps = "get_subblock_non_fixed_positions ?g subblock_index"
  obtain i j r2 where t: "two_distinct_indices (int (length ?ps) - 1) r = ((i, j), r2)"
    by (metis prod.exhaust)
  obtain r1 c1 where p1: "?ps ! nat i = (r1, c1)" by (cases "?ps ! nat i")
  obtain r2' c2 where p2: "?ps ! nat j = (r2', c2)" by (cases "?ps ! nat j")
  have c': "chrom' = chrom\<lparr>grid := swap_cells ?g (?ps ! nat i) (?ps ! nat j)\<rparr>"
    using mutate_subblock_swap[OF False t] assms(3) by simp
  note sel = selected_positions[OF assms(2) False t]
  have in1: "(r1, c1) \<in> set (subblock_cells subblock_index)" "\<not> is_fixed ?g r1 c1"
    and in2: "(r2', c2) \<in> set (subblock_cells subblock_index)" "\<not> is_fixed ?g r2' c2"
    using sel(3,4) unfolding non_fixed_positions_set p1 p2 by simp_all
  have b1: "r1 < 9 \<and> c1 < 9" and b2: "r2' < 9 \<and> c2 < 9"
    using subblock_cells_bounds[OF assms(2)] in1(1) in2(1) by blast+
  have fx: "fixed (grid chrom') = fixed ?g" by (simp add: c' swap_cells_fixed)
  have other: "get (grid chrom') row col = get ?g row col"
    if "(row, col) \<noteq> ?ps ! nat i \<and> (row, col) \<noteq> ?ps ! nat j" for row col
    using that by (simp add: c' swap_cells_other)
  have frame: "get (grid chrom') row col = get ?g row col"
    if "is_fixed ?g row col \<or> (row, col) \<notin> set (subblock_cells subblock_index)" for row col
  proof (rule other)
    show "(row, col) \<noteq> ?ps ! nat i \<and> (row, col) \<noteq> ?ps ! nat j"
      using that in1 in2 unfolding p1 p2 by auto
  qed
  have ex: "get (grid chrom') r1 c1 = get ?g r2' c2 \<and> get (grid chrom') r2' c2 = get ?g r1 c1"
    using sel(2) b1 b2 assms(1) unfolding p1 p2
    by (simp add: c' p1 p2 swap_cells_get)
  show ?thesis
    using False fx frame other sel(1,2) ex
    by (simp add: Let_def t p1 p2)
qed


lemma wf_example_filled: "wf_grid (grid example_filled)"
  by (simp add: wf_grid_def square9_def example_filled_def example_grid_def example_cells_def)

theorem mutate_subblock_frame_witness:
  "wf_grid (grid example_filled) \<and> (0::nat) < 9 \<and>
   fixed (grid (fst (mutate_subblock example_filled 0 [2, 1]))) = fixed (grid example_filled) \<and>
   get (grid (fst (mutate_subblock example_filled 0 [2, 1]))) 0 0 = 2 \<and>
   get (grid (fst (mutate_subblock example_filled 0 [2, 1]))) 0 1 = 4 \<and>
   get (grid (fst (mutate_subblock example_filled 0 [2, 1]))) 0 2 = 3 \<and>
   get (grid (fst (mutate_subblock example_filled 0 [2, 1]))) 1 0 = get (grid example_filled) 1 0"
proof -
  let ?c = "fst (mutate_subblock example_filled 0 [2, 1])"
  have lt: "(0::nat) < 9" by simp
  note t = mutate_subblock_frame[OF wf_example_filled lt prod.collapse[symmetric]]
  have fx: "is_fixed (grid example_filled) 1 0"
    by (simp add: is_fixed_def example_filled_def example_grid_def example_cells_def)
  have f1: "fixed (grid ?c) = fixed (grid example_filled)" using t by blast
  have f2: "get (grid ?c) 1 0 = get (grid example_filled) 1 0"
    using t fx by blast
  have ev: "get (grid ?c) 0 0 = 2" "get (grid ?c) 0 1 = 4" "get (grid ?c) 0 2 = 3"
    by code_simp+
  show ?thesis using wf_example_filled lt f1 f2 ev by blast
qed

section \<open>Mutation\<close>

lemma mutate_state_Suc:
  "mutate_state rate chrom r (Suc k) = mutate_block rate k (mutate_state rate chrom r k)"
  by (simp add: mutate_state_def)

lemma mutate_state_0: "mutate_state rate chrom r 0 = (chrom, False, r)"
  by (simp add: mutate_state_def)

lemma mutate_block_touched:
  "mutate_state rate chrom r (Suc k) =
     (if block_touched rate chrom r k
      then (fst (mutate_subblock (fst (mutate_state rate chrom r k)) k
                   (snd (rand_double (snd (snd (mutate_state rate chrom r k)))))),
            True,
            snd (mutate_subblock (fst (mutate_state rate chrom r k)) k
                   (snd (rand_double (snd (snd (mutate_state rate chrom r k)))))))
      else (fst (mutate_state rate chrom r k), fst (snd (mutate_state rate chrom r k)),
            snd (rand_double (snd (snd (mutate_state rate chrom r k))))))"
  unfolding mutate_state_Suc block_touched_def
  by (cases "mutate_state rate chrom r k")
     (auto simp: mutate_block_def split: prod.splits)





lemma mutate_eq:
  "mutate chrom rate r =
     (if fst (snd (mutate_state rate chrom r 9))
      then recalculate_fitness (fst (mutate_state rate chrom r 9))
      else fst (mutate_state rate chrom r 9),
      snd (snd (mutate_state rate chrom r 9)))"
  by (simp add: mutate_def mutate_state_def split: prod.splits)






















section \<open>Local search\<close>

lemma local_search_loop_result:
  "local_search_loop n parent best (fitness best) r = (res, r') \<Longrightarrow>
   res = best \<or>
   (fitness res > fitness best \<and>
    (\<exists>block \<rho>. block < 9 \<and> res = recalculate_fitness (fst (mutate_subblock parent block \<rho>))))"
proof (induction n arbitrary: best r)
  case 0
  then show ?case by simp
next
  case (Suc n)
  obtain block r1 where b: "rand_int 0 8 r = (block, r1)"
    by (cases "rand_int 0 8 r")
  obtain mutated r2 where m: "mutate_subblock parent (nat block) r1 = (mutated, r2)"
    by (cases "mutate_subblock parent (nat block) r1")
  let ?cand = "recalculate_fitness mutated"
  have rg: "0 \<le> block \<and> block \<le> 8" using rand_int_range[of 0 8 r] b by simp
  then have nb: "nat block < 9" by linarith
  have cand: "?cand = recalculate_fitness (fst (mutate_subblock parent (nat block) r1))"
    by (simp add: m)
  show ?case
  proof (cases "fitness ?cand > fitness best")
    case True
    then have "local_search_loop n parent ?cand (fitness ?cand) r2 = (res, r')"
      using Suc.prems by (simp add: b m Let_def)
    from Suc.IH[OF this] show ?thesis using True nb cand by force
  next
    case False
    then have "local_search_loop n parent best (fitness best) r2 = (res, r')"
      using Suc.prems by (simp add: b m Let_def)
    from Suc.IH[OF this] show ?thesis .
  qed
qed

lemma local_search_loop_fold:
  "fst (local_search_loop n parent best (fitness best) r) =
     foldl (\<lambda>b c. if fitness c > fitness b then c else b) best (tried_candidates n parent r)"
proof (induction n arbitrary: best r)
  case 0
  then show ?case by simp
next
  case (Suc n)
  obtain block r1 where b: "rand_int 0 8 r = (block, r1)" by (cases "rand_int 0 8 r")
  obtain mutated r2 where m: "mutate_subblock parent (nat block) r1 = (mutated, r2)"
    by (cases "mutate_subblock parent (nat block) r1")
  let ?cand = "recalculate_fitness mutated"
  show ?case
  proof (cases "fitness ?cand > fitness best")
    case True
    then show ?thesis using Suc[of ?cand r2] by (simp add: b m Let_def)
  next
    case False
    then show ?thesis using Suc[of best r2] by (simp add: b m Let_def)
  qed
qed

lemma foldl_keep_best:
  fixes cs :: "Chromosome list"
  defines "step \<equiv> (\<lambda>b c. if fitness c > fitness b then c else b)"
  shows "(foldl step best cs = best \<or>
           (foldl step best cs \<in> set cs \<and> fitness (foldl step best cs) > fitness best)) \<and>
         (\<forall>c\<in>set cs. fitness c \<le> fitness (foldl step best cs)) \<and>
         fitness best \<le> fitness (foldl step best cs)"
proof (induction cs rule: rev_induct)
  case Nil
  then show ?case by simp
next
  case (snoc c cs)
  show ?case
  proof (cases "fitness c > fitness (foldl step best cs)")
    case True
    then have "foldl step best (cs @ [c]) = c" by (simp add: step_def)
    then show ?thesis using True snoc by auto
  next
    case False
    then have "foldl step best (cs @ [c]) = foldl step best cs" by (simp add: step_def)
    then show ?thesis using False snoc by auto
  qed
qed

lemma tried_candidates_shape:
  "length (tried_candidates n parent r) = n \<and>
   (\<forall>c\<in>set (tried_candidates n parent r).
      (\<exists>block \<rho>. block < 9 \<and> c = recalculate_fitness (fst (mutate_subblock parent block \<rho>))) \<and>
      fitness c = get_total_score (grid c))"
proof (induction n arbitrary: r)
  case 0
  then show ?case by simp
next
  case (Suc n)
  obtain block r1 where b: "rand_int 0 8 r = (block, r1)" by (cases "rand_int 0 8 r")
  obtain mutated r2 where m: "mutate_subblock parent (nat block) r1 = (mutated, r2)"
    by (cases "mutate_subblock parent (nat block) r1")
  have rg: "0 \<le> block \<and> block \<le> 8" using rand_int_range[of 0 8 r] b by simp
  then have nb: "nat block < 9" by linarith
  have c: "recalculate_fitness mutated = recalculate_fitness (fst (mutate_subblock parent (nat block) r1))"
    by (simp add: m)
  have f: "fitness (recalculate_fitness mutated) = get_total_score (grid (recalculate_fitness mutated))"
    by (simp add: recalculate_fitness_def fitness_def)
  have t: "tried_candidates (Suc n) parent r = recalculate_fitness mutated # tried_candidates n parent r2"
    by (simp add: b m)
  show ?case unfolding t using Suc[of r2] nb c f by auto
qed


text \<open>
  Claim C9. For a parent whose cached fitness is the total score of its grid and a
  non-negative number of candidates, \<open>local_search\<close> returns a chromosome at least as fit
  as the parent. The result is exactly what scanning the candidates tried in this call
  gives when the incumbent, first the parent, is replaced by a candidate only if the
  candidate is strictly fitter: so the result is the unmodified parent, or one of the tried
  candidates and strictly fitter than the parent; no tried candidate is fitter than the
  result; and the result is the parent whenever no tried candidate is strictly fitter than
  the parent. The same holds for the loop from any incumbent. The tried candidates are
  built one after the other on the engine of the call: a block is drawn from 0..8, that
  block of a copy of the parent is mutated, and the fitness is recomputed. There are
  \<open>num_candidates\<close> of them, and the cached fitness of the result is again the total
  score of its grid.
\<close>

theorem local_search_spec:
  assumes "fitness parent = get_total_score (grid parent)" "0 \<le> num_candidates"
    and "local_search parent num_candidates r = (result, r')"
  shows "fitness result \<ge> fitness parent \<and>
    result = foldl (\<lambda>best c. if fitness c > fitness best then c else best) parent
               (tried_candidates (nat num_candidates) parent r) \<and>
    (result = parent \<or>
       (result \<in> set (tried_candidates (nat num_candidates) parent r) \<and>
        fitness result > fitness parent)) \<and>
    ((\<forall>c\<in>set (tried_candidates (nat num_candidates) parent r). \<not> fitness c > fitness parent)
       \<longrightarrow> result = parent) \<and>
    (\<forall>c\<in>set (tried_candidates (nat num_candidates) parent r). fitness c \<le> fitness result) \<and>
    (\<forall>n best \<rho>.
        fst (local_search_loop n parent best (fitness best) \<rho>) = best \<or>
        (fst (local_search_loop n parent best (fitness best) \<rho>) \<in> set (tried_candidates n parent \<rho>) \<and>
         fitness (fst (local_search_loop n parent best (fitness best) \<rho>)) > fitness best)) \<and>
    (\<forall>\<rho>. tried_candidates 0 parent \<rho> = []) \<and>
    (\<forall>n \<rho>. case rand_int 0 8 \<rho> of (block, \<rho>1) \<Rightarrow>
            case mutate_subblock parent (nat block) \<rho>1 of (mutated, \<rho>2) \<Rightarrow>
              0 \<le> block \<and> block \<le> 8 \<and>
              tried_candidates (Suc n) parent \<rho> =
                recalculate_fitness mutated # tried_candidates n parent \<rho>2) \<and>
    length (tried_candidates (nat num_candidates) parent r) = nat num_candidates \<and>
    (\<forall>c\<in>set (tried_candidates (nat num_candidates) parent r).
        \<exists>block \<rho>. block < 9 \<and> c = recalculate_fitness (fst (mutate_subblock parent block \<rho>))) \<and>
    fitness result = get_total_score (grid result)"
proof -
  let ?step = "\<lambda>best c. if fitness c > fitness best then c else best"
  let ?cs = "tried_candidates (nat num_candidates) parent r"
  have res: "result = foldl ?step parent ?cs"
    using local_search_loop_fold[of "nat num_candidates" parent parent r] assms(3)
    by (simp add: local_search_def)
  note k = foldl_keep_best[of parent ?cs]
  have ge: "fitness result \<ge> fitness parent" unfolding res using k by blast
  have alt: "result = parent \<or> (result \<in> set ?cs \<and> fitness result > fitness parent)"
    unfolding res using k by blast
  have mx: "\<forall>c\<in>set ?cs. fitness c \<le> fitness result" unfolding res using k by blast
  have none: "(\<forall>c\<in>set ?cs. \<not> fitness c > fitness parent) \<longrightarrow> result = parent"
    using alt by blast
  have loop: "\<forall>n best \<rho>.
        fst (local_search_loop n parent best (fitness best) \<rho>) = best \<or>
        (fst (local_search_loop n parent best (fitness best) \<rho>) \<in> set (tried_candidates n parent \<rho>) \<and>
         fitness (fst (local_search_loop n parent best (fitness best) \<rho>)) > fitness best)"
  proof (intro allI)
    fix n best \<rho>
    show "fst (local_search_loop n parent best (fitness best) \<rho>) = best \<or>
        (fst (local_search_loop n parent best (fitness best) \<rho>) \<in> set (tried_candidates n parent \<rho>) \<and>
         fitness (fst (local_search_loop n parent best (fitness best) \<rho>)) > fitness best)"
      unfolding local_search_loop_fold using foldl_keep_best[of best "tried_candidates n parent \<rho>"]
      by blast
  qed
  note sh = tried_candidates_shape[of "nat num_candidates" parent r]
  have len: "length ?cs = nat num_candidates" using sh by blast
  have form: "\<forall>c\<in>set ?cs. \<exists>block \<rho>. block < 9 \<and>
      c = recalculate_fitness (fst (mutate_subblock parent block \<rho>))"
    using sh by blast
  have valid: "fitness result = get_total_score (grid result)"
    using alt assms(1) sh by blast
  have nil: "\<forall>\<rho>. tried_candidates 0 parent \<rho> = []" by simp
  have cons: "\<forall>n \<rho>. case rand_int 0 8 \<rho> of (block, \<rho>1) \<Rightarrow>
            case mutate_subblock parent (nat block) \<rho>1 of (mutated, \<rho>2) \<Rightarrow>
              0 \<le> block \<and> block \<le> 8 \<and>
              tried_candidates (Suc n) parent \<rho> =
                recalculate_fitness mutated # tried_candidates n parent \<rho>2"
  proof (intro allI)
    fix n \<rho>
    obtain block \<rho>1 where b: "rand_int 0 8 \<rho> = (block, \<rho>1)" by (cases "rand_int 0 8 \<rho>")
    obtain mutated \<rho>2 where m: "mutate_subblock parent (nat block) \<rho>1 = (mutated, \<rho>2)"
      by (cases "mutate_subblock parent (nat block) \<rho>1")
    have rg: "0 \<le> block" "block \<le> 8" using rand_int_range[of 0 8 \<rho>] b by simp_all
    have t: "tried_candidates (Suc n) parent \<rho> =
                recalculate_fitness mutated # tried_candidates n parent \<rho>2"
      by (simp add: b m)
    show "case rand_int 0 8 \<rho> of (block, \<rho>1) \<Rightarrow>
            case mutate_subblock parent (nat block) \<rho>1 of (mutated, \<rho>2) \<Rightarrow>
              0 \<le> block \<and> block \<le> 8 \<and>
              tried_candidates (Suc n) parent \<rho> =
                recalculate_fitness mutated # tried_candidates n parent \<rho>2"
      unfolding b prod.case m using rg t by (intro conjI)
  qed
  show ?thesis using ge res alt none mx loop nil cons len form valid by (intro conjI)
qed

lemma example_filled_fitness: "fitness example_filled = get_total_score (grid example_filled)"
  by code_simp

theorem local_search_spec_witness:
  "fitness example_filled = get_total_score (grid example_filled) \<and> (0::int) \<le> 1 \<and>
   map fitness (tried_candidates 1 example_filled [0, 2, 1]) = [117] \<and>
   local_search example_filled 1 [0, 2, 1] = (example_filled, []) \<and>
   map fitness (tried_candidates 3 example_filled [0, 2, 1, 3, 0, 1, 5, 1, 1]) = [117, 119, 115] \<and>
   fitness (fst (local_search example_filled 3 [0, 2, 1, 3, 0, 1, 5, 1, 1])) = 119"
proof -
  have z: "(0::int) \<le> 1" and z3: "(0::int) \<le> 3" by simp_all
  note t = local_search_spec[OF example_filled_fitness z prod.collapse[symmetric],
      of "[0, 2, 1]"]
  note t3 = local_search_spec[OF example_filled_fitness z3 prod.collapse[symmetric],
      of "[0, 2, 1, 3, 0, 1, 5, 1, 1]"]
  have f: "fitness example_filled = 118" by (simp add: fitness_def example_filled_def)
  have tr: "map fitness (tried_candidates 1 example_filled [0, 2, 1]) = [117]"
    by code_simp
  have tr3: "map fitness (tried_candidates 3 example_filled [0, 2, 1, 3, 0, 1, 5, 1, 1]) = [117, 119, 115]"
    by code_simp
  have n1: "nat 1 = (1::nat)" by simp
  have imp: "(\<forall>c\<in>set (tried_candidates 1 example_filled [0, 2, 1]).
                \<not> fitness c > fitness example_filled) \<longrightarrow>
             fst (local_search example_filled 1 [0, 2, 1]) = example_filled"
    using t unfolding n1 by blast
  have "\<forall>c\<in>set (tried_candidates 1 example_filled [0, 2, 1]). \<not> fitness c > fitness example_filled"
  proof
    fix c assume "c \<in> set (tried_candidates 1 example_filled [0, 2, 1])"
    then have "fitness c \<in> set (map fitness (tried_candidates 1 example_filled [0, 2, 1]))" by simp
    then show "\<not> fitness c > fitness example_filled" unfolding tr f by simp
  qed
  then have "fst (local_search example_filled 1 [0, 2, 1]) = example_filled"
    using imp by blast
  moreover have "snd (local_search example_filled 1 [0, 2, 1]) = []" by code_simp
  ultimately have one: "local_search example_filled 1 [0, 2, 1] = (example_filled, [])"
    by (metis prod.collapse)
  let ?r = "fst (local_search example_filled 3 [0, 2, 1, 3, 0, 1, 5, 1, 1])"
  let ?cs = "tried_candidates 3 example_filled [0, 2, 1, 3, 0, 1, 5, 1, 1]"
  have n3: "nat 3 = (3::nat)" by simp
  have mx: "\<forall>c\<in>set ?cs. fitness c \<le> fitness ?r" using t3 unfolding n3 by blast
  have "119 \<in> set (map fitness ?cs)" unfolding tr3 by simp
  then have ge: "119 \<le> fitness ?r" using mx by auto
  have "?r = example_filled \<or> ?r \<in> set ?cs" using t3 unfolding n3 by blast
  then have "fitness ?r = 118 \<or> fitness ?r \<in> set (map fitness ?cs)" using f by auto
  then have "fitness ?r = 119" using ge unfolding tr3 by auto
  then show ?thesis using example_filled_fitness z tr one tr3 by blast
qed

section \<open>Shuffling and tournament selection\<close>

lemma mset_remove_nth:
  "k < length xs \<Longrightarrow> add_mset (xs ! k) (mset (take k xs @ drop (Suc k) xs)) = mset xs"
proof -
  assume "k < length xs"
  then have "xs = take k xs @ xs ! k # drop (Suc k) xs" by (rule id_take_nth_drop)
  then have "mset xs = mset (take k xs @ xs ! k # drop (Suc k) xs)" by simp
  then show ?thesis by simp
qed

lemma shuffle_pick_mset:
  "length xs = n \<Longrightarrow> mset (fst (shuffle_pick n xs r)) = mset xs"
proof (induction n arbitrary: xs r)
  case 0
  then show ?case by simp
next
  case (Suc n)
  obtain k r1 where k: "rand_int 0 (int (length xs) - 1) r = (k, r1)"
    by (cases "rand_int 0 (int (length xs) - 1) r")
  have "0 \<le> k \<and> k \<le> int (length xs) - 1"
    using rand_int_range[of 0 "int (length xs) - 1" r] Suc.prems k by simp
  then have nk: "nat k < length xs" by linarith
  let ?rest = "take (nat k) xs @ drop (Suc (nat k)) xs"
  have len: "length ?rest = n" using nk Suc.prems by simp
  obtain ys r2 where ys: "shuffle_pick n ?rest r1 = (ys, r2)"
    by (cases "shuffle_pick n ?rest r1")
  have "mset ys = mset ?rest" using Suc.IH[OF len, of r1] ys by simp
  then have "mset (xs ! nat k # ys) = mset xs"
    using mset_remove_nth[OF nk] by simp
  then show ?case by (simp add: k ys)
qed

lemma shuffle_mset: "mset (fst (shuffle xs r)) = mset xs"
  by (simp add: shuffle_def shuffle_pick_mset)

lemma shuffle_props:
  "set (fst (shuffle xs r)) = set xs" "length (fst (shuffle xs r)) = length xs"
  "distinct (fst (shuffle xs r)) = distinct xs"
  using shuffle_mset[of xs r] by (metis set_mset_mset, metis size_mset, metis mset_eq_imp_distinct_iff)

lemma sample_indices_props:
  assumes "k \<le> n"
  shows "length (fst (sample_indices n k r)) = k"
    and "distinct (fst (sample_indices n k r))"
    and "set (fst (sample_indices n k r)) \<subseteq> {0..<n}"
    and "k = n \<Longrightarrow> set (fst (sample_indices n k r)) = {0..<n}"
proof -
  let ?s = "fst (shuffle [0..<n] r)"
  have s: "fst (sample_indices n k r) = take k ?s"
    using assms shuffle_props(2)[of "[0..<n]" r]
    by (cases "shuffle [0..<n] r") (simp add: sample_indices_def resize_def)
  have d: "distinct ?s" using shuffle_props(3)[of "[0..<n]" r] by simp
  have st: "set ?s = {0..<n}" using shuffle_props(1)[of "[0..<n]" r] by simp
  have l: "length ?s = n" using shuffle_props(2)[of "[0..<n]" r] by simp
  show "length (fst (sample_indices n k r)) = k" using assms l by (simp add: s)
  show "distinct (fst (sample_indices n k r))" using d by (simp add: s)
  show "set (fst (sample_indices n k r)) \<subseteq> {0..<n}"
    using st set_take_subset[of k ?s] by (simp add: s)
  show "set (fst (sample_indices n k r)) = {0..<n}" if "k = n"
  proof -
    have "take k ?s = ?s" using that l by simp
    then show ?thesis using st by (simp only: s)
  qed
qed

lemma find_snoc:
  "find P (xs @ [x]) = (case find P xs of None \<Rightarrow> (if P x then Some x else None) | Some y \<Rightarrow> Some y)"
  by (induction xs) auto

lemma scan_best:
  "(scan_best_idx f a xs = a \<or> scan_best_idx f a xs \<in> set xs) \<and>
   (\<forall>x\<in>set (a # xs). f x \<le> f (scan_best_idx f a xs)) \<and>
   find (\<lambda>i. f i = f (scan_best_idx f a xs)) (a # xs) = Some (scan_best_idx f a xs)"
  unfolding scan_best_idx_def
proof (induction xs rule: rev_induct)
  case Nil
  then show ?case by simp
next
  case (snoc x xs)
  let ?r = "foldl (\<lambda>best idx. if f idx > f best then idx else best) a xs"
  have ih: "?r = a \<or> ?r \<in> set xs" "\<forall>y\<in>set (a # xs). f y \<le> f ?r"
    "find (\<lambda>i. f i = f ?r) (a # xs) = Some ?r"
    using snoc by auto
  show ?case
  proof (cases "f x > f ?r")
    case True
    have none: "find (\<lambda>i. f i = f x) (a # xs) = None"
      unfolding find_None_iff using ih(2) True by fastforce
    have "find (\<lambda>i. f i = f x) ((a # xs) @ [x]) = Some x"
      unfolding find_snoc none by simp
    then show ?thesis using True ih(2) by auto
  next
    case False
    have "find (\<lambda>i. f i = f ?r) ((a # xs) @ [x]) = Some ?r"
      unfolding find_snoc ih(3) by simp
    then show ?thesis using False ih(1,2) by auto
  qed
qed


lemma scan_best_mem: "scan_best_idx f a xs = a \<or> scan_best_idx f a xs \<in> set xs"
  by (rule scan_best[THEN conjunct1])



lemma scan_best_hd_mem:
  assumes "xs \<noteq> []"
  shows "scan_best_idx f (xs ! 0) xs \<in> set xs"
proof (cases "scan_best_idx f (xs ! 0) xs = xs ! 0")
  case True
  have "xs ! 0 \<in> set xs" using assms by (rule_tac nth_mem) simp
  then show ?thesis by (simp only: True)
next
  case False
  then show ?thesis using scan_best_mem[of f "xs ! 0" xs] by blast
qed


lemma tournament_select_eq:
  assumes "individuals \<noteq> []"
  shows "tournament_select individuals k r =
     Inr (scan_best_idx (\<lambda>i. fitness (individuals ! i))
            (fst (sample_indices (length individuals) (nat (max (min k (int (length individuals))) 1)) r) ! 0)
            (fst (sample_indices (length individuals) (nat (max (min k (int (length individuals))) 1)) r)),
          snd (sample_indices (length individuals) (nat (max (min k (int (length individuals))) 1)) r))"
  using assms
  by (simp add: tournament_select_def Let_def scan_best_idx_def split: prod.splits)




section \<open>One generation\<close>

lemma foldl_largest:
  "foldl (\<lambda>largest x. if fitness largest < fitness x then x else largest) a ys \<in> insert a (set ys) \<and>
   (\<forall>x\<in>insert a (set ys).
      fitness x \<le> fitness (foldl (\<lambda>largest x. if fitness largest < fitness x then x else largest) a ys))"
proof (induction ys rule: rev_induct)
  case Nil
  then show ?case by simp
next
  case (snoc y ys)
  then show ?case by auto
qed

lemma max_element_props:
  assumes "xs \<noteq> []"
  shows "max_element xs \<in> set xs" "\<forall>x\<in>set xs. fitness x \<le> fitness (max_element xs)"
proof -
  have s: "insert (hd xs) (set (tl xs)) = set xs" using assms by (cases xs) auto
  show "max_element xs \<in> set xs" "\<forall>x\<in>set xs. fitness x \<le> fitness (max_element xs)"
    using foldl_largest[of "hd xs" "tl xs"] unfolding s max_element_def by blast+
qed

lemma tournament_select_ok:
  assumes "individuals \<noteq> []"
  shows "\<exists>idx r'. tournament_select individuals k r = Inr (idx, r') \<and> idx < length individuals"
proof -
  let ?n = "length individuals"
  let ?k = "nat (max (min k (int ?n)) 1)"
  let ?ix = "fst (sample_indices ?n ?k r)"
  let ?f = "\<lambda>i. fitness (individuals ! i)"
  have n: "1 \<le> ?n" using assms by (cases individuals) simp_all
  have k2: "?k \<le> ?n" using n by auto
  note sp = sample_indices_props[OF k2, of r]
  have ne: "?ix \<noteq> []" using sp(1) by auto
  then have "scan_best_idx ?f (?ix ! 0) ?ix \<in> set ?ix" by (rule scan_best_hd_mem)
  then have "scan_best_idx ?f (?ix ! 0) ?ix \<in> {0..<?n}" using sp(3) by (rule subsetD[rotated])
  then have "scan_best_idx ?f (?ix ! 0) ?ix < ?n" by (simp only: atLeastLessThan_iff)
  then show ?thesis unfolding tournament_select_eq[OF assms, of k r] by blast
qed

lemma pick_second_ok:
  assumes "individuals \<noteq> []"
  shows "\<exists>idx r'. pick_second n individuals k parent1 r = Inr (idx, r') \<and> idx < length individuals"
proof (induction n arbitrary: r)
  case 0
  obtain idx r' where "tournament_select individuals k r = Inr (idx, r')" "idx < length individuals"
    using tournament_select_ok[OF assms] by blast
  then show ?case by (simp add: pick_second.simps[of 0])
next
  case (Suc n)
  obtain idx r' where t: "tournament_select individuals k r = Inr (idx, r')" "idx < length individuals"
    using tournament_select_ok[OF assms] by blast
  show ?case
  proof (cases "idx \<noteq> parent1")
    case True
    then show ?thesis using t by (simp add: pick_second.simps[of "Suc n"])
  next
    case False
    then show ?thesis using t Suc[of r'] by (simp add: pick_second.simps[of "Suc n"])
  qed
qed

lemma select_parents_ok:
  assumes "2 \<le> length individuals"
  shows "\<exists>p1 p2 r'. select_parents individuals k r = Inr ((p1, p2), r') \<and>
           p1 < length individuals \<and> p2 < length individuals \<and> p1 \<noteq> p2"
proof -
  have ne: "individuals \<noteq> []" using assms by auto
  have lt: "\<not> length individuals < 2" using assms by simp
  obtain p1 r1 where t: "tournament_select individuals k r = Inr (p1, r1)" "p1 < length individuals"
    using tournament_select_ok[OF ne] by blast
  obtain p2 r2 where p: "pick_second 9 individuals k p1 r1 = Inr (p2, r2)" "p2 < length individuals"
    using pick_second_ok[OF ne] by blast
  have sp: "select_parents individuals k r =
      (if p2 = p1
       then (case find (\<lambda>i. i \<noteq> p1) [0..<length individuals] of
               Some i \<Rightarrow> Inr ((p1, i), r2)
             | None \<Rightarrow> Inr ((p1, p2), r2))
       else Inr ((p1, p2), r2))"
    unfolding select_parents_def by (simp only: lt if_False t(1) p(1) sum.case prod.case)
  show ?thesis
  proof (cases "p2 = p1")
    case False
    then show ?thesis using t(2) p(2) sp by simp
  next
    case True
    have "\<exists>i. i \<in> set [0..<length individuals] \<and> i \<noteq> p1"
    proof (cases "p1 = 0")
      case True
      then show ?thesis using assms by (intro exI[of _ 1]) simp
    next
      case False
      then show ?thesis using ne by (intro exI[of _ 0]) simp
    qed
    then have "find (\<lambda>i. i \<noteq> p1) [0..<length individuals] \<noteq> None"
      unfolding find_None_iff by blast
    then obtain i where f: "find (\<lambda>i. i \<noteq> p1) [0..<length individuals] = Some i"
      by blast
    have "\<exists>j<length [0..<length individuals]. [0..<length individuals] ! j \<noteq> p1 \<and> i = [0..<length individuals] ! j"
      using f unfolding find_Some_iff by blast
    then have i: "i < length individuals" "i \<noteq> p1" by auto
    have "select_parents individuals k r = Inr ((p1, i), r2)"
      unfolding sp using True f by simp
    then show ?thesis using t(2) i by blast
  qed
qed

lemma breed_ok:
  assumes "2 \<le> length population" "length ng < length population"
  shows "\<exists>ng' r'. breed params population ng r = Inr (ng', r') \<and>
           take (length ng) ng' = ng \<and> length ng < length ng' \<and>
           length ng' \<le> length population"
proof -
  obtain p1 p2 r1 where s: "select_parents population (tournament_size params) r = Inr ((p1, p2), r1)"
    using select_parents_ok[OF assms(1)] by blast
  obtain u r2 where d: "rand_double r1 = (u, r2)" by (cases "rand_double r1")
  define X where "X = (if u < crossover_rate params
      then (case crossover (population ! p1) (population ! p2) of
              (child1, child2) \<Rightarrow> mutate_and_refine params child1 child2 r2)
      else mutate_and_refine params (population ! p1) (population ! p2) r2)"
  obtain child1 child2 r3 where m: "X = ((child1, child2), r3)"
    by (cases X) auto
  have "breed params population ng r =
          (case X of ((child1, child2), r3) \<Rightarrow>
          (if length (ng @ [child1]) < length population
           then Inr ((ng @ [child1]) @ [child2], r3) else Inr (ng @ [child1], r3)))"
    unfolding breed_def X_def by (simp only: s d sum.case prod.case Let_def)
  then have e: "breed params population ng r =
          (if length (ng @ [child1]) < length population
           then Inr ((ng @ [child1]) @ [child2], r3) else Inr (ng @ [child1], r3))"
    by (simp only: m prod.case)
  show ?thesis
  proof (cases "length (ng @ [child1]) < length population")
    case True
    then have "breed params population ng r = Inr (ng @ [child1, child2], r3)"
      using e by simp
    moreover have "take (length ng) (ng @ [child1, child2]) = ng" by simp
    moreover have "length ng < length (ng @ [child1, child2])" by simp
    moreover have "length (ng @ [child1, child2]) \<le> length population" using True by simp
    ultimately show ?thesis by blast
  next
    case False
    then have "breed params population ng r = Inr (ng @ [child1], r3)"
      using e by simp
    moreover have "take (length ng) (ng @ [child1]) = ng" by simp
    moreover have "length ng < length (ng @ [child1])" by simp
    moreover have "length (ng @ [child1]) \<le> length population" using assms(2) by simp
    ultimately show ?thesis by blast
  qed
qed

lemma offspring_loop_ok:
  assumes "2 \<le> length population \<or> length population \<le> length ng"
  shows "\<exists>ng' r'. offspring_loop params population ng r = Inr (ng', r') \<and>
           take (length ng) ng' = ng \<and> length ng' = max (length ng) (length population)"
  using assms
proof (induction params population ng r rule: offspring_loop.induct)
  case (1 params population ng r)
  show ?case
  proof (cases "length ng < length population")
    case False
    then show ?thesis by (simp add: max_def)
  next
    case True
    then have two: "2 \<le> length population" using "1.prems" by auto
    obtain ng1 r1 where b: "breed params population ng r = Inr (ng1, r1)"
      "take (length ng) ng1 = ng" "length ng < length ng1" "length ng1 \<le> length population"
      using breed_ok[OF two True] by blast
    obtain ng' r' where l: "offspring_loop params population ng1 r1 = Inr (ng', r')"
      "take (length ng1) ng' = ng1" "length ng' = max (length ng1) (length population)"
      using "1.IH"[OF True b(1) refl] two by blast
    have "take (length ng) ng' = take (length ng) (take (length ng1) ng')"
      using b(3) by (simp add: min_def)
    then have tk: "take (length ng) ng' = ng" using l(2) b(2) by simp
    have "offspring_loop params population ng r = Inr (ng', r')"
      using True b(1) l(1) by (subst offspring_loop.simps) simp
    then show ?thesis using tk l(3) b(3,4) True by (simp add: max_def)
  qed
qed

lemma run_generation_elitism:
  assumes "population \<noteq> []" "elitism params"
  shows "\<exists>population' r'. run_generation params population r = Inr (population', r') \<and>
           length population' = length population \<and>
           population' ! 0 = max_element population"
proof -
  have c: "2 \<le> length population \<or> length population \<le> length [max_element population]"
  proof (cases "2 \<le> length population")
    case True
    then show ?thesis by simp
  next
    case False
    then have "length population \<le> 1" by simp
    then show ?thesis by simp
  qed
  obtain ng' r' where l: "offspring_loop params population [max_element population] r = Inr (ng', r')"
    "take (length [max_element population]) ng' = [max_element population]"
    "length ng' = max (length [max_element population]) (length population)"
    using offspring_loop_ok[OF c] by blast
  have len: "length ng' = length population" using l(3) assms(1) by (cases population) auto
  have "take 1 ng' = [max_element population]" using l(2) by simp
  then have hd: "ng' ! 0 = max_element population"
    by (metis One_nat_def nth_Cons_0 nth_take zero_less_one)
  have "run_generation params population r = Inr (ng', r')"
    using assms l(1) by (simp add: run_generation_def get_best_def)
  then show ?thesis using len hd by blast
qed


lemma best_fitness_mono_step:
  assumes "population \<noteq> []" "length population' = length population"
    "population' ! 0 = max_element population"
  shows "best_fitness_of population \<le> best_fitness_of population'"
proof -
  have ne: "population' \<noteq> []" using assms(1,2) by auto
  then have "population' ! 0 \<in> set population'" by simp
  then have "fitness (population' ! 0) \<le> fitness (max_element population')"
    using max_element_props(2)[OF ne] by blast
  then show ?thesis using assms ne by (simp add: best_fitness_of_def)
qed

lemma run_generations_elitism:
  assumes "population \<noteq> []" "elitism params"
  shows "\<exists>p r'. run_generations n params population r = Inr (p, r') \<and>
           length p = length population"
proof (induction n)
  case 0
  then show ?case by simp
next
  case (Suc n)
  then obtain p r1 where p: "run_generations n params population r = Inr (p, r1)"
    "length p = length population" by blast
  have ne: "p \<noteq> []" using p(2) assms(1) by auto
  obtain p' r2 where "run_generation params p r1 = Inr (p', r2)" "length p' = length p"
    using run_generation_elitism[OF ne assms(2)] by blast
  then show ?case using p by simp
qed

lemma run_generations_step_mono:
  assumes "population \<noteq> []" "elitism params"
    and "run_generations n params population r = Inr (p, r1)"
    and "run_generations (Suc n) params population r = Inr (q, r2)"
  shows "best_fitness_of p \<le> best_fitness_of q"
proof -
  have "length p = length population"
    using run_generations_elitism[OF assms(1,2), of n r] assms(3) by simp
  then have ne: "p \<noteq> []" using assms(1) by auto
  have q: "run_generation params p r1 = Inr (q, r2)" using assms(3,4) by simp
  obtain p' r' where s: "run_generation params p r1 = Inr (p', r')" "length p' = length p"
    "p' ! 0 = max_element p"
    using run_generation_elitism[OF ne assms(2)] by blast
  then have "p' = q" using q by simp
  then show ?thesis using best_fitness_mono_step[OF ne s(2,3)] by simp
qed

lemma run_generations_mono:
  assumes "population \<noteq> []" "elitism params" "m \<le> n"
    and "run_generations m params population r = Inr (p, r1)"
    and "run_generations n params population r = Inr (q, r2)"
  shows "best_fitness_of p \<le> best_fitness_of q"
  using assms(3,5)
proof (induction n arbitrary: q r2)
  case 0
  then show ?case using assms(4) by simp
next
  case (Suc n)
  show ?case
  proof (cases "m = Suc n")
    case True
    then show ?thesis using Suc.prems(2) assms(4) by simp
  next
    case False
    then have le: "m \<le> n" using Suc.prems(1) by simp
    obtain p' r' where p': "run_generations n params population r = Inr (p', r')"
      using run_generations_elitism[OF assms(1,2), of n r] by blast
    have "best_fitness_of p \<le> best_fitness_of p'" using Suc.IH[OF le p'] .
    moreover have "best_fitness_of p' \<le> best_fitness_of q"
      using run_generations_step_mono[OF assms(1,2) p' Suc.prems(2)] .
    ultimately show ?thesis by simp
  qed
qed

text \<open>
  Claim C2. With elitism enabled, on a non-empty population \<open>run_generation\<close> succeeds,
  the new population has the size of the old one and starts with a copy of the old best
  individual, and its best fitness is at least the old best fitness. Hence along any
  number of successive generations, as the loop of \<open>solve\<close> runs them, the best fitness
  never decreases from one generation to a later one.
\<close>

theorem run_generation_elitism_spec:
  assumes "population \<noteq> []" "elitism params"
  shows "(\<exists>population' r'. run_generation params population r = Inr (population', r') \<and>
            length population' = length population \<and>
            get_best population = Inr (population' ! 0) \<and>
            best_fitness_of population \<le> best_fitness_of population') \<and>
         (\<forall>m n. m \<le> n \<longrightarrow>
            (\<exists>p q r1 r2. run_generations m params population r = Inr (p, r1) \<and>
                          run_generations n params population r = Inr (q, r2) \<and>
                          best_fitness_of p \<le> best_fitness_of q))"
proof
  obtain p' r' where s: "run_generation params population r = Inr (p', r')"
    "length p' = length population" "p' ! 0 = max_element population"
    using run_generation_elitism[OF assms] by blast
  have "get_best population = Inr (p' ! 0)" using assms(1) s(3) by (simp add: get_best_def)
  moreover have "best_fitness_of population \<le> best_fitness_of p'"
    using best_fitness_mono_step[OF assms(1) s(2,3)] .
  ultimately show "\<exists>population' r'. run_generation params population r = Inr (population', r') \<and>
            length population' = length population \<and>
            get_best population = Inr (population' ! 0) \<and>
            best_fitness_of population \<le> best_fitness_of population'"
    using s(1,2) by blast
next
  show "\<forall>m n. m \<le> n \<longrightarrow>
            (\<exists>p q r1 r2. run_generations m params population r = Inr (p, r1) \<and>
                          run_generations n params population r = Inr (q, r2) \<and>
                          best_fitness_of p \<le> best_fitness_of q)"
  proof (intro allI impI)
    fix m n :: nat assume le: "m \<le> n"
    obtain p r1 where p: "run_generations m params population r = Inr (p, r1)"
      using run_generations_elitism[OF assms, of m r] by blast
    obtain q r2 where q: "run_generations n params population r = Inr (q, r2)"
      using run_generations_elitism[OF assms, of n r] by blast
    have "best_fitness_of p \<le> best_fitness_of q"
      using run_generations_mono[OF assms le p q] .
    then show "\<exists>p q r1 r2. run_generations m params population r = Inr (p, r1) \<and>
                          run_generations n params population r = Inr (q, r2) \<and>
                          best_fitness_of p \<le> best_fitness_of q"
      using p q by blast
  qed
qed

lemma example_population_best: "best_fitness_of example_population = 162"
proof -
  have "max_element example_population = recalculate_fitness (Chromosome_of_puzzle solved_grid)"
    by (simp add: max_element_def example_population_def fitness_def example_filled_def
        Chromosome_of_puzzle_def recalculate_fitness_def score_solved)
  then show ?thesis
    by (simp add: best_fitness_of_def example_population_def fitness_def
        Chromosome_of_puzzle_def recalculate_fitness_def score_solved)
qed

theorem run_generation_elitism_spec_witness:
  "example_population \<noteq> [] \<and> elitism default_params \<and>
   (\<exists>population' r'. run_generation default_params example_population [4, 2] = Inr (population', r') \<and>
      length population' = 3 \<and> 162 \<le> best_fitness_of population')"
proof -
  have ne: "example_population \<noteq> []" by (simp add: example_population_def)
  have el: "elitism default_params" by (simp add: default_params_def)
  have len: "length example_population = 3" by (simp add: example_population_def)
  show ?thesis
    using run_generation_elitism_spec[OF ne el, of "[4, 2]", THEN conjunct1] ne el
    unfolding example_population_best len by blast
qed

section \<open>Random completion establishes the sub-block invariant\<close>

lemma duplicate_grid_of_string: "grid_of_string duplicate_puzzle = Inr duplicate_grid"
  by code_simp
lemma duplicate_filled_init: "initialize_random (Chromosome_of_puzzle duplicate_grid) [] = Inr (duplicate_filled, [])"
  by code_simp
lemma duplicate_filled_invalid: "\<not> subblock_valid (grid duplicate_filled) 0"
  by code_simp
lemma example_filled_valid: "subblocks_valid (grid example_filled)"
  by code_simp
lemma example_grid_givens: "valid_cells example_grid \<and> givens_distinct example_grid"
  by code_simp

lemma valid_cells_iff:
  "wf_grid g \<Longrightarrow> valid_cells g \<longleftrightarrow> (\<forall>r<9. \<forall>c<9. 0 \<le> get g r c \<and> get g r c \<le> 9)"
  by (auto simp: valid_cells_def wf_grid_def square9_def list_all_length get_def)

lemma place_missing_spec:
  assumes "wf_grid g" "distinct ps" "\<forall>p\<in>set ps. fst p < 9 \<and> snd p < 9"
    and "length (filter (\<lambda>p. get g (fst p) (snd p) = 0) ps) + idx \<le> length missing"
  shows "\<exists>g'. place_missing ps missing idx g = Inr g' \<and> wf_grid g' \<and> fixed g' = fixed g \<and>
           (\<forall>r c. (r, c) \<notin> set ps \<longrightarrow> get g' r c = get g r c) \<and>
           map (\<lambda>p. get g' (fst p) (snd p)) ps =
             fill_zeros (map (\<lambda>p. get g (fst p) (snd p)) ps) (drop idx missing)"
  using assms
proof (induction ps arbitrary: g idx)
  case Nil
  then show ?case by simp
next
  case (Cons p ps)
  obtain r c where p: "p = (r, c)" by (cases p)
  have rc: "r < 9" "c < 9" using Cons.prems(3) p by auto
  have notin: "(r, c) \<notin> set ps" using Cons.prems(2) p by simp
  have d: "distinct ps" using Cons.prems(2) by simp
  have b: "\<forall>p\<in>set ps. fst p < 9 \<and> snd p < 9" using Cons.prems(3) by simp
  show ?case
  proof (cases "get g r c = 0")
    case False
    have cnt: "length (filter (\<lambda>p. get g (fst p) (snd p) = 0) ps) + idx \<le> length missing"
      using Cons.prems(4) False p by simp
    obtain g' where g': "place_missing ps missing idx g = Inr g'" "wf_grid g'" "fixed g' = fixed g"
      "\<forall>r c. (r, c) \<notin> set ps \<longrightarrow> get g' r c = get g r c"
      "map (\<lambda>p. get g' (fst p) (snd p)) ps =
         fill_zeros (map (\<lambda>p. get g (fst p) (snd p)) ps) (drop idx missing)"
      using Cons.IH[OF Cons.prems(1) d b cnt] by blast
    have same: "get g' r c = get g r c" using g'(4) notin by blast
    have "place_missing (p # ps) missing idx g = Inr g'" using False g'(1) p by simp
    moreover have "\<forall>r' c'. (r', c') \<notin> set (p # ps) \<longrightarrow> get g' r' c' = get g r' c'"
      using g'(4) by simp
    moreover have "map (\<lambda>p. get g' (fst p) (snd p)) (p # ps) =
             fill_zeros (map (\<lambda>p. get g (fst p) (snd p)) (p # ps)) (drop idx missing)"
      using False same g'(5) p by simp
    ultimately show ?thesis using g'(2,3) by blast
  next
    case True
    have idx: "idx < length missing" using Cons.prems(4) True p by simp
    let ?g1 = "set_cell g r c (missing ! idx)"
    have w1: "wf_grid ?g1" using Cons.prems(1) by (rule wf_set_cell)
    have unchanged: "get ?g1 (fst q) (snd q) = get g (fst q) (snd q)" if "q \<in> set ps" for q
    proof -
      have "(fst q, snd q) \<noteq> (r, c)" using that notin by auto
      then show ?thesis by (rule get_set_cell_other)
    qed
    have feq: "filter (\<lambda>p. get ?g1 (fst p) (snd p) = 0) ps = filter (\<lambda>p. get g (fst p) (snd p) = 0) ps"
      by (rule filter_cong) (simp_all add: unchanged)
    have meq: "map (\<lambda>p. get ?g1 (fst p) (snd p)) ps = map (\<lambda>p. get g (fst p) (snd p)) ps"
      by (rule map_cong) (simp_all add: unchanged)
    have cnt: "length (filter (\<lambda>p. get ?g1 (fst p) (snd p) = 0) ps) + (idx + 1) \<le> length missing"
      unfolding feq using Cons.prems(4) True p by simp
    obtain g' where g': "place_missing ps missing (idx + 1) ?g1 = Inr g'" "wf_grid g'"
      "fixed g' = fixed ?g1"
      "\<forall>r c. (r, c) \<notin> set ps \<longrightarrow> get g' r c = get ?g1 r c"
      "map (\<lambda>p. get g' (fst p) (snd p)) ps =
         fill_zeros (map (\<lambda>p. get ?g1 (fst p) (snd p)) ps) (drop (idx + 1) missing)"
      using Cons.IH[OF w1 d b cnt] by blast
    have here: "get g' r c = missing ! idx"
      using g'(4) notin Cons.prems(1) rc by (simp add: get_set_cell)
    have dr: "drop idx missing = missing ! idx # drop (idx + 1) missing"
      using idx by (simp add: Cons_nth_drop_Suc)
    have "place_missing (p # ps) missing idx g = Inr g'" using True idx g'(1) p by simp
    moreover have "fixed g' = fixed g" using g'(3) by (simp add: fixed_set_cell)
    moreover have "\<forall>r' c'. (r', c') \<notin> set (p # ps) \<longrightarrow> get g' r' c' = get g r' c'"
      using g'(4) p by (simp add: get_set_cell_other)
    moreover have "map (\<lambda>p. get g' (fst p) (snd p)) (p # ps) =
             fill_zeros (map (\<lambda>p. get g (fst p) (snd p)) (p # ps)) (drop idx missing)"
      using True here g'(5) p unfolding meq dr by simp
    ultimately show ?thesis using g'(2) by blast
  qed
qed

lemma fill_zeros_mset:
  "length (filter (\<lambda>v. v = 0) vs) \<le> length ms \<Longrightarrow>
   mset (fill_zeros vs ms) =
     mset (filter (\<lambda>v. v \<noteq> 0) vs) + mset (take (length (filter (\<lambda>v. v = 0) vs)) ms)"
proof (induction vs arbitrary: ms)
  case Nil
  then show ?case by simp
next
  case (Cons v vs)
  show ?case
  proof (cases "v = 0")
    case False
    then show ?thesis using Cons by simp
  next
    case True
    then obtain m ms' where ms: "ms = m # ms'" using Cons.prems by (cases ms) auto
    then show ?thesis using True Cons.IH[of ms'] Cons.prems by simp
  qed
qed

lemma fill_zeros_set:
  "set (fill_zeros vs ms) \<subseteq> set vs \<union> set ms"
proof (induction vs arbitrary: ms)
  case Nil
  then show ?case by simp
next
  case (Cons v vs)
  show ?case
  proof (cases ms)
    case Nil
    then show ?thesis using Cons[of "[]"] by auto
  next
    case (Cons m ms')
    then show ?thesis using Cons.IH[of ms'] Cons.IH[of ms] by auto
  qed
qed

lemma upto_1_9: "[1..9] = [1, 2, 3, 4, 5, 6, 7, 8, 9 :: int]"
  by (simp add: upto_rec1)

lemma length_subblock_values: "length (subblock_values g b) = 9"
  by (simp add: subblock_values_def length_subblock_cells)

lemma subblock_values_fst_snd:
  "subblock_values g b = map (\<lambda>p. get g (fst p) (snd p)) (subblock_cells b)"
  by (simp add: subblock_values_def case_prod_beta)

lemma missing_digits_props:
  assumes "list_all (\<lambda>v. 0 \<le> v \<and> v \<le> 9) vals" "length vals = 9"
  defines "nz \<equiv> filter (\<lambda>v. v \<noteq> 0) vals"
  defines "ms \<equiv> filter (\<lambda>d. d \<notin> set nz) [1..9]"
  shows "length (filter (\<lambda>v. v = 0) vals) \<le> length ms"
    and "set ms \<subseteq> {1..9}"
    and "distinct nz \<Longrightarrow> length (filter (\<lambda>v. v = 0) vals) = length ms"
    and "distinct nz \<Longrightarrow> mset nz + mset ms = mset [1..9]"
proof -
  have sub: "set nz \<subseteq> {1..9}"
    using assms(1) unfolding nz_def list_all_iff by force
  have dms: "distinct ms" unfolding ms_def by simp
  have sms: "set ms = {1..9} - set nz" unfolding ms_def by auto
  have "length ms = card (set ms)" using dms by (simp add: distinct_card)
  also have "\<dots> = card {1..9::int} - card (set nz)"
    unfolding sms by (rule card_Diff_subset) (use sub in auto)
  finally have lms: "length ms = 9 - card (set nz)" by simp
  have split: "length (filter (\<lambda>v. v = 0) vals) + length nz = 9"
    unfolding nz_def using sum_length_filter_compl[of "\<lambda>v. v = 0" vals] assms(2) by simp
  have cl: "card (set nz) \<le> length nz" by (rule card_length)
  show "length (filter (\<lambda>v. v = 0) vals) \<le> length ms" using lms split cl by linarith
  show "set ms \<subseteq> {1..9}" using sms by auto
  show "length (filter (\<lambda>v. v = 0) vals) = length ms" if "distinct nz"
    using lms split distinct_card[OF that] by linarith
  show "mset nz + mset ms = mset [1..9]" if "distinct nz"
  proof -
    have d: "distinct (nz @ ms)" using that dms sms by auto
    have s: "set (nz @ ms) = set [1..9]" using sub sms by auto
    have d9: "distinct [1..9::int]" by simp
    have "mset (nz @ ms) = mset [1..9]"
      using set_eq_iff_mset_eq_distinct[OF d d9] s by blast
    then show ?thesis by (simp only: mset_append)
  qed
qed

lemma subblock_values_in_range:
  assumes "wf_grid g" "valid_cells g" "b < 9"
  shows "list_all (\<lambda>v. 0 \<le> v \<and> v \<le> 9) (subblock_values g b)"
proof -
  have "0 \<le> get g (fst p) (snd p) \<and> get g (fst p) (snd p) \<le> 9" if "p \<in> set (subblock_cells b)" for p
  proof -
    have "fst p < 9 \<and> snd p < 9" using subblock_cells_bounds[OF assms(3), of "fst p" "snd p"] that by simp
    then show ?thesis using assms(1,2) valid_cells_iff by blast
  qed
  then show ?thesis unfolding subblock_values_fst_snd list_all_iff by auto
qed

lemma fill_subblock_random_spec:
  assumes "wf_grid (grid chrom)" "valid_cells (grid chrom)" "b < 9"
  shows "\<exists>chrom' r'. fill_subblock_random chrom b r = Inr (chrom', r') \<and>
           wf_grid (grid chrom') \<and> valid_cells (grid chrom') \<and>
           fixed (grid chrom') = fixed (grid chrom) \<and>
           cached_fitness chrom' = cached_fitness chrom \<and>
           (\<forall>row col. (row, col) \<notin> set (subblock_cells b) \<longrightarrow>
              get (grid chrom') row col = get (grid chrom) row col) \<and>
           (distinct (filter (\<lambda>v. v \<noteq> 0) (subblock_values (grid chrom) b)) \<longrightarrow>
              mset (subblock_values (grid chrom') b) = mset [1..9])"
proof -
  let ?g = "grid chrom"
  let ?vals = "subblock_values ?g b"
  let ?nz = "filter (\<lambda>v. v \<noteq> 0) ?vals"
  let ?ms = "filter (\<lambda>d. d \<notin> set ?nz) [1..9]"
  let ?ps = "subblock_cells b"
  have rng: "list_all (\<lambda>v. 0 \<le> v \<and> v \<le> 9) ?vals" using assms by (rule subblock_values_in_range)
  have md: "missing_digits ?g b = ?ms" by (simp add: missing_digits_def Let_def)
  obtain sh r' where sh: "shuffle ?ms r = (sh, r')" by (cases "shuffle ?ms r")
  have msh: "mset sh = mset ?ms" using shuffle_mset[of ?ms r] sh by simp
  then have lsh: "length sh = length ?ms" and ssh: "set sh = set ?ms"
    by (metis size_mset, metis set_mset_mset)
  note mp = missing_digits_props[OF rng length_subblock_values]
  have zc: "filter (\<lambda>p. get ?g (fst p) (snd p) = 0) ?ps = filter ((\<lambda>v. v = 0) \<circ> (\<lambda>p. get ?g (fst p) (snd p))) ?ps"
    by (simp add: comp_def)
  have zeros: "length (filter (\<lambda>p. get ?g (fst p) (snd p) = 0) ?ps) = length (filter (\<lambda>v. v = 0) ?vals)"
    unfolding subblock_values_fst_snd filter_map zc by simp
  have cnt: "length (filter (\<lambda>p. get ?g (fst p) (snd p) = 0) ?ps) + 0 \<le> length sh"
    unfolding zeros lsh using mp(1) by simp
  have bnd: "\<forall>p\<in>set ?ps. fst p < 9 \<and> snd p < 9"
    using subblock_cells_bounds[OF assms(3)] by auto
  obtain g' where g': "place_missing ?ps sh 0 ?g = Inr g'" "wf_grid g'" "fixed g' = fixed ?g"
      "\<forall>r c. (r, c) \<notin> set ?ps \<longrightarrow> get g' r c = get ?g r c"
      "map (\<lambda>p. get g' (fst p) (snd p)) ?ps = fill_zeros (map (\<lambda>p. get ?g (fst p) (snd p)) ?ps) (drop 0 sh)"
    using place_missing_spec[OF assms(1) distinct_subblock_cells bnd cnt] by blast
  have vals': "subblock_values g' b = fill_zeros ?vals sh"
    using g'(5) unfolding subblock_values_fst_snd by simp
  have res: "fill_subblock_random chrom b r = Inr (chrom\<lparr>grid := g'\<rparr>, r')"
    unfolding fill_subblock_random_def md
    by (simp only: rng not_True_eq_False if_False sh prod.case g'(1) sum.case)
  have in_rng: "0 \<le> v \<and> v \<le> 9" if "v \<in> set (subblock_values g' b)" for v
  proof -
    have "v \<in> set ?vals \<union> set sh" using that fill_zeros_set[of ?vals sh] unfolding vals' by blast
    then show ?thesis
    proof
      assume "v \<in> set ?vals"
      then show ?thesis using rng unfolding list_all_iff by blast
    next
      assume "v \<in> set sh"
      then have "v \<in> {1..9}" using mp(2) ssh by blast
      then show ?thesis by simp
    qed
  qed
  have vc: "valid_cells g'"
    unfolding valid_cells_iff[OF g'(2)]
  proof (intro allI impI)
    fix row col :: nat assume rc: "row < 9" "col < 9"
    show "0 \<le> get g' row col \<and> get g' row col \<le> 9"
    proof (cases "(row, col) \<in> set ?ps")
      case True
      then have "get g' row col \<in> set (subblock_values g' b)"
        unfolding subblock_values_fst_snd by force
      then show ?thesis by (rule in_rng)
    next
      case False
      then have "get g' row col = get ?g row col" using g'(4) by blast
      then show ?thesis using assms(1,2) rc valid_cells_iff by simp
    qed
  qed
  have ms: "mset (subblock_values g' b) = mset [1..9]" if dz: "distinct ?nz"
  proof -
    have le: "length (filter (\<lambda>v. v = 0) ?vals) \<le> length sh" using mp(1) lsh by simp
    have "take (length (filter (\<lambda>v. v = 0) ?vals)) sh = sh" using mp(3)[OF dz] lsh by simp
    then have "mset (fill_zeros ?vals sh) = mset ?nz + mset sh"
      using fill_zeros_mset[OF le] by simp
    then show ?thesis using mp(4)[OF dz] msh unfolding vals' by simp
  qed
  show ?thesis
    using res g'(2,3,4) vc ms by (intro exI[of _ "chrom\<lparr>grid := g'\<rparr>"] exI[of _ r']) simp
qed

lemma subblock_cells_disjoint:
  assumes "p \<in> set (subblock_cells b)" "p \<in> set (subblock_cells b')"
  shows "b = b'"
proof -
  have "fst p div 3 = b div 3 \<and> snd p div 3 = b mod 3"
    using assms(1) subblock_cells_iff[of "fst p" "snd p" b] by simp
  moreover have "fst p div 3 = b' div 3 \<and> snd p div 3 = b' mod 3"
    using assms(2) subblock_cells_iff[of "fst p" "snd p" b'] by simp
  ultimately have "b div 3 = b' div 3" "b mod 3 = b' mod 3" by simp_all
  then show ?thesis by (metis div_mult_mod_eq)
qed

lemma other_block_values:
  assumes "\<forall>row col. (row, col) \<notin> set (subblock_cells b) \<longrightarrow> get g' row col = get g row col"
    and "b' \<noteq> b"
  shows "subblock_values g' b' = subblock_values g b'"
  unfolding subblock_values_fst_snd
proof (rule map_cong[OF refl])
  fix p assume "p \<in> set (subblock_cells b')"
  then have "p \<notin> set (subblock_cells b)" using subblock_cells_disjoint assms(2) by blast
  then have "(fst p, snd p) \<notin> set (subblock_cells b)" by simp
  then show "get g' (fst p) (snd p) = get g (fst p) (snd p)" using assms(1) by blast
qed

lemma fill_blocks_spec:
  assumes "wf_grid (grid chrom)" "valid_cells (grid chrom)" "distinct bs" "\<forall>b\<in>set bs. b < 9"
  shows "\<exists>chrom' r'. fill_blocks bs chrom r = Inr (chrom', r') \<and>
           wf_grid (grid chrom') \<and> valid_cells (grid chrom') \<and>
           fixed (grid chrom') = fixed (grid chrom) \<and>
           cached_fitness chrom' = cached_fitness chrom \<and>
           (\<forall>b. b \<notin> set bs \<longrightarrow> subblock_values (grid chrom') b = subblock_values (grid chrom) b) \<and>
           (\<forall>b\<in>set bs. distinct (filter (\<lambda>v. v \<noteq> 0) (subblock_values (grid chrom) b)) \<longrightarrow>
              mset (subblock_values (grid chrom') b) = mset [1..9])"
  using assms
proof (induction bs arbitrary: chrom r)
  case Nil
  then show ?case by simp
next
  case (Cons b bs)
  have b9: "b < 9" and nb: "b \<notin> set bs" and d: "distinct bs" and bs9: "\<forall>b\<in>set bs. b < 9"
    using Cons.prems(3,4) by auto
  obtain c1 r1 where c1: "fill_subblock_random chrom b r = Inr (c1, r1)"
    "wf_grid (grid c1)" "valid_cells (grid c1)" "fixed (grid c1) = fixed (grid chrom)"
    "cached_fitness c1 = cached_fitness chrom"
    "\<forall>row col. (row, col) \<notin> set (subblock_cells b) \<longrightarrow> get (grid c1) row col = get (grid chrom) row col"
    "distinct (filter (\<lambda>v. v \<noteq> 0) (subblock_values (grid chrom) b)) \<longrightarrow>
       mset (subblock_values (grid c1) b) = mset [1..9]"
    using fill_subblock_random_spec[OF Cons.prems(1,2) b9, of r] by blast
  obtain c2 r2 where c2: "fill_blocks bs c1 r1 = Inr (c2, r2)"
    "wf_grid (grid c2)" "valid_cells (grid c2)" "fixed (grid c2) = fixed (grid c1)"
    "cached_fitness c2 = cached_fitness c1"
    "\<forall>b. b \<notin> set bs \<longrightarrow> subblock_values (grid c2) b = subblock_values (grid c1) b"
    "\<forall>b\<in>set bs. distinct (filter (\<lambda>v. v \<noteq> 0) (subblock_values (grid c1) b)) \<longrightarrow>
       mset (subblock_values (grid c2) b) = mset [1..9]"
    using Cons.IH[OF c1(2,3) d bs9, of r1] by blast
  have oth: "subblock_values (grid c1) b' = subblock_values (grid chrom) b'" if "b' \<noteq> b" for b'
    using other_block_values[OF c1(6) that] .
  have res: "fill_blocks (b # bs) chrom r = Inr (c2, r2)" using c1(1) c2(1) by simp
  have frame: "\<forall>b'. b' \<notin> set (b # bs) \<longrightarrow> subblock_values (grid c2) b' = subblock_values (grid chrom) b'"
    using c2(6) oth by auto
  have here: "distinct (filter (\<lambda>v. v \<noteq> 0) (subblock_values (grid chrom) b)) \<longrightarrow>
       mset (subblock_values (grid c2) b) = mset [1..9]"
    using c1(7) c2(6) nb by simp
  have rest: "\<forall>b'\<in>set bs. distinct (filter (\<lambda>v. v \<noteq> 0) (subblock_values (grid chrom) b')) \<longrightarrow>
       mset (subblock_values (grid c2) b') = mset [1..9]"
  proof (intro ballI impI)
    fix b' assume m: "b' \<in> set bs" and dz: "distinct (filter (\<lambda>v. v \<noteq> 0) (subblock_values (grid chrom) b'))"
    have "b' \<noteq> b" using m nb by auto
    then have "subblock_values (grid c1) b' = subblock_values (grid chrom) b'" by (rule oth)
    then show "mset (subblock_values (grid c2) b') = mset [1..9]" using c2(7) m dz by simp
  qed
  have all: "\<forall>b'\<in>set (b # bs). distinct (filter (\<lambda>v. v \<noteq> 0) (subblock_values (grid chrom) b')) \<longrightarrow>
       mset (subblock_values (grid c2) b') = mset [1..9]"
    using here rest by simp
  show ?case
    using res c2(2,3) c2(4) c1(4) c2(5) c1(5) frame all
    by (intro exI[of _ c2] exI[of _ r2]) simp
qed

lemma perm_imp_subblock_valid:
  assumes "mset (subblock_values g b) = mset [1..9]"
  shows "subblock_valid g b"
proof -
  have "count_list (subblock_values g b) d = 1" if "d \<in> set [1..9]" for d
  proof -
    have "count_list (subblock_values g b) d = count (mset (subblock_values g b)) d"
      by (simp only: count_mset)
    also have "\<dots> = count (mset [1..9]) d" by (simp only: assms)
    also have "\<dots> = (if d \<in> set [1..9] then 1 else 0)"
      using distinct_upto[of 1 9] unfolding distinct_count_atmost_1 by blast
    also have "\<dots> = 1" using that by (simp only: if_True)
    finally show ?thesis .
  qed
  then show ?thesis unfolding subblock_valid_def list_all_iff by blast
qed

lemma subblock_valid_cong:
  assumes "mset (subblock_values g' b) = mset (subblock_values g b)"
  shows "subblock_valid g' b = subblock_valid g b"
proof -
  have "count_list (subblock_values g' b) d = count_list (subblock_values g b) d" for d
    by (simp only: count_mset[symmetric] assms)
  then show ?thesis unfolding subblock_valid_def by (simp only:)
qed

lemma subblocks_valid_iff: "subblocks_valid g \<longleftrightarrow> (\<forall>b<9. subblock_valid g b)"
  by (auto simp: subblocks_valid_def list_all_iff)

lemma givens_distinct_iff:
  "givens_distinct g \<longleftrightarrow> (\<forall>b<9. distinct (filter (\<lambda>v. v \<noteq> 0) (subblock_values g b)))"
  by (auto simp: givens_distinct_def list_all_iff)

lemma initialize_random_spec:
  assumes "wf_grid puzzle" "valid_cells puzzle"
  shows "\<exists>chrom r'. initialize_random (Chromosome_of_puzzle puzzle) r = Inr (chrom, r') \<and>
           wf_grid (grid chrom) \<and> valid_cells (grid chrom) \<and> fixed (grid chrom) = fixed puzzle \<and>
           fitness chrom = get_total_score (grid chrom) \<and>
           (givens_distinct puzzle \<longrightarrow> subblocks_valid (grid chrom))"
proof -
  let ?c = "Chromosome_of_puzzle puzzle"
  have g: "grid ?c = puzzle" by (simp add: Chromosome_of_puzzle_def)
  have w: "wf_grid (grid ?c)" "valid_cells (grid ?c)" using assms by (simp_all add: g)
  have d: "distinct [0..<9::nat]" "\<forall>b\<in>set [0..<9::nat]. b < 9" by simp_all
  obtain c1 r1 where c1: "fill_blocks [0..<9] ?c r = Inr (c1, r1)"
    "wf_grid (grid c1)" "valid_cells (grid c1)" "fixed (grid c1) = fixed (grid ?c)"
    "\<forall>b\<in>set [0..<9]. distinct (filter (\<lambda>v. v \<noteq> 0) (subblock_values (grid ?c) b)) \<longrightarrow>
       mset (subblock_values (grid c1) b) = mset [1..9]"
    using fill_blocks_spec[OF w d, of r] by blast
  let ?r = "recalculate_fitness c1"
  have gr: "grid ?r = grid c1" by (simp add: recalculate_fitness_def)
  have res: "initialize_random ?c r = Inr (?r, r1)" using c1(1) by (simp add: initialize_random_def)
  have v: "subblocks_valid (grid ?r)" if "givens_distinct puzzle"
    unfolding subblocks_valid_iff gr
  proof (intro allI impI)
    fix b :: nat assume b: "b < 9"
    have "distinct (filter (\<lambda>v. v \<noteq> 0) (subblock_values puzzle b))"
      using that b unfolding givens_distinct_iff by blast
    then have "mset (subblock_values (grid c1) b) = mset [1..9]" using c1(5) b g by simp
    then show "subblock_valid (grid c1) b" by (rule perm_imp_subblock_valid)
  qed
  have f: "fitness ?r = get_total_score (grid ?r)" by (simp add: recalculate_fitness_def fitness_def)
  show ?thesis
    using res c1(2,3,4) v f unfolding gr g
    by (intro exI[of _ ?r] exI[of _ r1]) (simp add: gr)
qed

section \<open>The operators preserve the sub-block invariant\<close>

lemma swap_map_mset:
  assumes "distinct ps" "p \<in> set ps" "q \<in> set ps"
  shows "mset (map (\<lambda>x. if x = q then f p else if x = p then f q else f x) ps) = mset (map f ps)"
proof -
  define t where "t = (\<lambda>x. if x = q then p else if x = p then q else x)"
  have tt: "t (t x) = x" for x by (auto simp: t_def)
  have inj: "inj_on t (set ps)" by (rule inj_on_inverseI[of _ t]) (rule tt)
  have tin: "t x \<in> set ps" if "x \<in> set ps" for x using that assms(2,3) by (auto simp: t_def)
  have img: "t ` set ps = set ps"
  proof
    show "t ` set ps \<subseteq> set ps" using tin by blast
    show "set ps \<subseteq> t ` set ps"
    proof
      fix x assume x: "x \<in> set ps"
      show "x \<in> t ` set ps"
        by (rule image_eqI[where x = "t x"]) (simp_all only: tt tin[OF x])
    qed
  qed
  have d: "distinct (map t ps)" using assms(1) inj by (simp add: distinct_map)
  have "set (map t ps) = set ps" using img by simp
  then have m: "mset (map t ps) = mset ps"
    using d assms(1) set_eq_iff_mset_eq_distinct by blast
  have "(if x = q then f p else if x = p then f q else f x) = f (t x)" for x
    by (auto simp: t_def)
  then have "map (\<lambda>x. if x = q then f p else if x = p then f q else f x) ps = map f (map t ps)"
    by simp
  then have "mset (map (\<lambda>x. if x = q then f p else if x = p then f q else f x) ps) =
        mset (map f (map t ps))" by (rule arg_cong)
  also have "\<dots> = image_mset f (mset (map t ps))" by (rule mset_map)
  also have "\<dots> = image_mset f (mset ps)" by (rule arg_cong[OF m])
  also have "\<dots> = mset (map f ps)" by (rule mset_map[symmetric])
  finally show ?thesis .
qed

lemma mutate_subblock_values:
  assumes "wf_grid (grid chrom)" "b < 9"
  shows "wf_grid (grid (fst (mutate_subblock chrom b r)))"
    and "mset (subblock_values (grid (fst (mutate_subblock chrom b r))) b') =
         mset (subblock_values (grid chrom) b')"
proof -
  let ?g = "grid chrom"
  let ?ps = "get_subblock_non_fixed_positions ?g b"
  have "wf_grid (grid (fst (mutate_subblock chrom b r))) \<and>
        mset (subblock_values (grid (fst (mutate_subblock chrom b r))) b') =
         mset (subblock_values ?g b')"
  proof (cases "length ?ps < 2")
    case True
    then show ?thesis using assms(1) by (simp add: mutate_subblock_noop)
  next
    case False
    obtain i j r2 where t: "two_distinct_indices (int (length ?ps) - 1) r = ((i, j), r2)"
      by (metis prod.exhaust)
    let ?p = "?ps ! nat i" and ?q = "?ps ! nat j"
    note sel = selected_positions[OF assms(2) False t]
    have c: "fst (mutate_subblock chrom b r) = chrom\<lparr>grid := swap_cells ?g ?p ?q\<rparr>"
      using mutate_subblock_swap[OF False t] by simp
    have inb: "?p \<in> set (subblock_cells b)" "?q \<in> set (subblock_cells b)"
      using sel(3,4) unfolding non_fixed_positions_set by simp_all
    have bp: "fst ?p < 9 \<and> snd ?p < 9" and bq: "fst ?q < 9 \<and> snd ?q < 9"
      using subblock_cells_bounds[OF assms(2), of "fst ?p" "snd ?p"]
        subblock_cells_bounds[OF assms(2), of "fst ?q" "snd ?q"] inb by simp_all
    have gt: "get (swap_cells ?g ?p ?q) (fst x) (snd x) =
          (if x = ?q then get ?g (fst ?p) (snd ?p)
           else if x = ?p then get ?g (fst ?q) (snd ?q) else get ?g (fst x) (snd x))" for x
      using swap_cells_get[OF assms(1), of ?p ?q "fst x" "snd x"] bp bq by simp
    have w: "wf_grid (swap_cells ?g ?p ?q)" using assms(1) by (rule wf_swap_cells)
    have "mset (subblock_values (swap_cells ?g ?p ?q) b') = mset (subblock_values ?g b')"
    proof (cases "b' = b")
      case True
      show ?thesis
        unfolding subblock_values_fst_snd True gt
        using swap_map_mset[OF distinct_subblock_cells inb, of "\<lambda>x. get ?g (fst x) (snd x)"] .
    next
      case False
      have "subblock_values (swap_cells ?g ?p ?q) b' = subblock_values ?g b'"
        unfolding subblock_values_fst_snd
      proof (rule map_cong[OF refl])
        fix x assume x: "x \<in> set (subblock_cells b')"
        have "x \<noteq> ?p" "x \<noteq> ?q" using x inb subblock_cells_disjoint False by blast+
        then show "get (swap_cells ?g ?p ?q) (fst x) (snd x) = get ?g (fst x) (snd x)"
          unfolding gt by simp
      qed
      then show ?thesis by simp
    qed
    then show ?thesis using w by (simp add: c)
  qed
  then show "wf_grid (grid (fst (mutate_subblock chrom b r)))"
    and "mset (subblock_values (grid (fst (mutate_subblock chrom b r))) b') =
         mset (subblock_values (grid chrom) b')" by simp_all
qed

lemma mutate_subblock_invariant:
  assumes "wf_grid (grid chrom)" "subblocks_valid (grid chrom)" "b < 9"
  shows "wf_grid (grid (fst (mutate_subblock chrom b r))) \<and>
         subblocks_valid (grid (fst (mutate_subblock chrom b r)))"
proof
  show "wf_grid (grid (fst (mutate_subblock chrom b r)))"
    using assms(1,3) by (rule mutate_subblock_values(1))
  show "subblocks_valid (grid (fst (mutate_subblock chrom b r)))"
    unfolding subblocks_valid_iff
  proof (intro allI impI)
    fix b' :: nat assume "b' < 9"
    then have "subblock_valid (grid chrom) b'" using assms(2) unfolding subblocks_valid_iff by blast
    then show "subblock_valid (grid (fst (mutate_subblock chrom b r))) b'"
      using subblock_valid_cong[OF mutate_subblock_values(2)[OF assms(1,3), of r b']] by blast
  qed
qed

lemma grid_recalculate_fitness: "grid (recalculate_fitness c) = grid c"
  by (simp add: recalculate_fitness_def)

lemma mutate_state_invariant:
  assumes "wf_grid (grid chrom)" "subblocks_valid (grid chrom)" "k \<le> 9"
  shows "wf_grid (grid (fst (mutate_state rate chrom r k))) \<and>
         subblocks_valid (grid (fst (mutate_state rate chrom r k)))"
  using assms(3)
proof (induction k)
  case 0
  then show ?case using assms(1,2) by (simp add: mutate_state_0)
next
  case (Suc k)
  then have ih: "wf_grid (grid (fst (mutate_state rate chrom r k)))"
    "subblocks_valid (grid (fst (mutate_state rate chrom r k)))" and k: "k < 9" by simp_all
  show ?case
  proof (cases "block_touched rate chrom r k")
    case True
    then show ?thesis
      unfolding mutate_block_touched using mutate_subblock_invariant[OF ih k] by simp
  next
    case False
    then show ?thesis unfolding mutate_block_touched using ih by simp
  qed
qed

lemma mutate_invariant:
  assumes "wf_grid (grid chrom)" "subblocks_valid (grid chrom)"
  shows "wf_grid (grid (fst (mutate chrom rate r))) \<and>
         subblocks_valid (grid (fst (mutate chrom rate r)))"
proof -
  have "grid (fst (mutate chrom rate r)) = grid (fst (mutate_state rate chrom r 9))"
    by (simp add: mutate_eq grid_recalculate_fitness)
  then show ?thesis using mutate_state_invariant[OF assms, of 9 rate r] by simp
qed

lemma local_search_invariant:
  assumes "wf_grid (grid chrom)" "subblocks_valid (grid chrom)"
  shows "wf_grid (grid (fst (local_search chrom n r))) \<and>
         subblocks_valid (grid (fst (local_search chrom n r)))"
proof -
  have l: "local_search_loop (nat n) chrom chrom (fitness chrom) r =
          (fst (local_search chrom n r), snd (local_search chrom n r))"
    by (simp add: local_search_def)
  from local_search_loop_result[OF l]
  show ?thesis
  proof
    assume "fst (local_search chrom n r) = chrom"
    then show ?thesis using assms by simp
  next
    assume "fitness chrom < fitness (fst (local_search chrom n r)) \<and>
      (\<exists>block \<rho>. block < 9 \<and>
         fst (local_search chrom n r) = recalculate_fitness (fst (mutate_subblock chrom block \<rho>)))"
    then obtain block \<rho> where b: "block < 9"
      "fst (local_search chrom n r) = recalculate_fitness (fst (mutate_subblock chrom block \<rho>))"
      by blast
    show ?thesis
      unfolding b(2) grid_recalculate_fitness using assms b(1) by (rule mutate_subblock_invariant)
  qed
qed

lemma block_row_col:
  assumes "p \<in> set (subblock_cells b)" "b < 9"
  shows "fst p < 9" "snd p < 9" "fst p div 3 = b div 3" "snd p div 3 = b mod 3"
  using subblock_cells_bounds[OF assms(2), of "fst p" "snd p"] assms(1)
    subblock_cells_iff[of "fst p" "snd p" b] by simp_all

lemma crossover_invariant:
  assumes "wf_grid (grid p1)" "subblocks_valid (grid p1)"
    and "wf_grid (grid p2)" "subblocks_valid (grid p2)"
  shows "wf_grid (grid (fst (crossover p1 p2))) \<and> subblocks_valid (grid (fst (crossover p1 p2)))"
    and "wf_grid (grid (snd (crossover p1 p2))) \<and> subblocks_valid (grid (snd (crossover p1 p2)))"
proof -
  let ?k1 = "fold (crossover_band p1 p2) [0..<3] p1"
  let ?k2 = "fold (crossover_stack p1 p2) [0..<3] p1"
  have g1: "grid (fst (crossover p1 p2)) = grid ?k1" and g2: "grid (snd (crossover p1 p2)) = grid ?k2"
    by (simp_all add: crossover_def Let_def grid_recalculate_fitness)
  have w1: "wf_grid (grid ?k1)" using assms(1,3) by (rule wf_child1)
  have w2: "wf_grid (grid ?k2)" using child2_cells(1)[OF assms(1), of 0 0] by simp
  have par: "subblock_valid (grid (band_parent p1 p2 k)) b" "subblock_valid (grid (stack_parent p1 p2 k)) b"
    if "b < 9" for b k
    using assms(2,4) that unfolding subblocks_valid_iff band_parent_def stack_parent_def by simp_all
  have v1: "subblock_valid (grid ?k1) b" if b: "b < 9" for b
  proof -
    have "subblock_values (grid ?k1) b = subblock_values (grid (band_parent p1 p2 (b div 3))) b"
      unfolding subblock_values_fst_snd
    proof (rule map_cong[OF refl])
      fix p assume p: "p \<in> set (subblock_cells b)"
      note rc = block_row_col[OF p b]
      show "get (grid ?k1) (fst p) (snd p) = get (grid (band_parent p1 p2 (b div 3))) (fst p) (snd p)"
        unfolding get_def using child1_rows(1)[OF assms(1,3) rc(1)] rc(3) by simp
    qed
    then show ?thesis using par(1)[OF b] by (simp add: subblock_valid_def)
  qed
  have v2: "subblock_valid (grid ?k2) b" if b: "b < 9" for b
  proof -
    have "subblock_values (grid ?k2) b = subblock_values (grid (stack_parent p1 p2 (b mod 3))) b"
      unfolding subblock_values_fst_snd
    proof (rule map_cong[OF refl])
      fix p assume p: "p \<in> set (subblock_cells b)"
      note rc = block_row_col[OF p b]
      show "get (grid ?k2) (fst p) (snd p) = get (grid (stack_parent p1 p2 (b mod 3))) (fst p) (snd p)"
        unfolding get_def using child2_cells(2)[OF assms(1) rc(1,2)] rc(4) by simp
    qed
    then show ?thesis using par(2)[OF b] by (simp add: subblock_valid_def)
  qed
  show "wf_grid (grid (fst (crossover p1 p2))) \<and> subblocks_valid (grid (fst (crossover p1 p2)))"
    unfolding g1 subblocks_valid_iff using w1 v1 by blast
  show "wf_grid (grid (snd (crossover p1 p2))) \<and> subblocks_valid (grid (snd (crossover p1 p2)))"
    unfolding g2 subblocks_valid_iff using w2 v2 by blast
qed

lemma derived_invariant:
  assumes "\<forall>c\<in>S. wf_grid (grid c) \<and> subblocks_valid (grid c)" "derived S d"
  shows "wf_grid (grid d) \<and> subblocks_valid (grid d)"
  using assms(2)
proof (induction rule: derived.induct)
  case (base c)
  then show ?case using assms(1) by blast
next
  case (crossover_first p1 p2)
  then show ?case using crossover_invariant(1) by blast
next
  case (crossover_second p1 p2)
  then show ?case using crossover_invariant(2) by blast
next
  case (mutated c rate r)
  then show ?case using mutate_invariant by blast
next
  case (subblock_mutated c b r)
  then show ?case using mutate_subblock_invariant by blast
next
  case (searched c n r)
  then show ?case using local_search_invariant by blast
qed

text \<open>
  Claim C1 (amended). For every 9x9 puzzle grid with cell values in 0..9 in which no
  sub-block holds a nonzero value twice, \<open>initialize_random\<close> on the chromosome created
  from it succeeds, whatever the random draws, and every one of the 9 sub-blocks of the
  result contains each digit 1..9 exactly once. And for chromosomes with 9x9 grids that
  satisfy this invariant, every chromosome that any sequence of applications of
  \<open>crossover\<close> (either child), \<open>mutate\<close>, \<open>mutate_subblock\<close> (on a block index below 9) and
  \<open>local_search\<close> produces from them satisfies it too.
\<close>

theorem subblock_invariant_spec:
  "(wf_grid puzzle \<and> valid_cells puzzle \<and> givens_distinct puzzle \<longrightarrow>
      (\<exists>chrom r'. initialize_random (Chromosome_of_puzzle puzzle) r = Inr (chrom, r') \<and>
         wf_grid (grid chrom) \<and> subblocks_valid (grid chrom))) \<and>
   ((\<forall>c\<in>S. wf_grid (grid c) \<and> subblocks_valid (grid c)) \<and> derived S d \<longrightarrow>
      wf_grid (grid d) \<and> subblocks_valid (grid d))"
proof (intro conjI impI)
  assume a: "wf_grid puzzle \<and> valid_cells puzzle \<and> givens_distinct puzzle"
  then have w: "wf_grid puzzle" and v: "valid_cells puzzle" and g: "givens_distinct puzzle"
    by simp_all
  show "\<exists>chrom r'. initialize_random (Chromosome_of_puzzle puzzle) r = Inr (chrom, r') \<and>
         wf_grid (grid chrom) \<and> subblocks_valid (grid chrom)"
    using initialize_random_spec[OF w v, of r] g by blast
next
  assume a: "(\<forall>c\<in>S. wf_grid (grid c) \<and> subblocks_valid (grid c)) \<and> derived S d"
  then show "wf_grid (grid d)" "subblocks_valid (grid d)"
    using derived_invariant[of S d] by blast+
qed

text \<open>
  The claim as stated, for every puzzle grid, fails on a puzzle that gives a digit twice
  in one sub-block: the string constructor accepts it, and after \<open>initialize_random\<close> the
  first sub-block holds the digit 1 twice and no 9.
\<close>

theorem subblock_invariant_counterexample:
  "grid_of_string duplicate_puzzle = Inr duplicate_grid \<and>
   initialize_random (Chromosome_of_puzzle duplicate_grid) [] = Inr (duplicate_filled, []) \<and>
   subblock_values (grid duplicate_filled) 0 = [1, 1, 2, 3, 4, 5, 6, 7, 8] \<and>
   \<not> subblocks_valid (grid duplicate_filled)"
proof -
  have "subblock_values (grid duplicate_filled) 0 = [1, 1, 2, 3, 4, 5, 6, 7, 8]"
    by code_simp
  moreover have "\<not> subblocks_valid (grid duplicate_filled)"
    by code_simp
  ultimately show ?thesis
    using duplicate_grid_of_string duplicate_filled_init by blast
qed

theorem subblock_invariant_spec_witness:
  "wf_grid example_grid \<and> valid_cells example_grid \<and> givens_distinct example_grid \<and>
   (\<exists>chrom r'. initialize_random (Chromosome_of_puzzle example_grid) [3, 1, 4] = Inr (chrom, r') \<and>
      subblocks_valid (grid chrom)) \<and>
   derived {example_filled}
     (fst (mutate (fst (crossover example_filled (fst (mutate_subblock example_filled 4 [1, 0]))))
        (1 / 2) [0, 5])) \<and>
   subblocks_valid
     (grid (fst (mutate (fst (crossover example_filled (fst (mutate_subblock example_filled 4 [1, 0]))))
        (1 / 2) [0, 5])))"
proof -
  let ?m = "fst (mutate_subblock example_filled 4 [1, 0])"
  let ?d = "fst (mutate (fst (crossover example_filled ?m)) (1 / 2) [0, 5])"
  have g: "valid_cells example_grid" "givens_distinct example_grid"
    using example_grid_givens by simp_all
  have b: "derived {example_filled} example_filled" by (rule derived.base) simp
  have "derived {example_filled} ?m" using b by (rule derived.subblock_mutated) simp
  then have "derived {example_filled} (fst (crossover example_filled ?m))"
    using b by (intro derived.crossover_first)
  then have d: "derived {example_filled} ?d" by (rule derived.mutated)
  have s: "\<forall>c\<in>{example_filled}. wf_grid (grid c) \<and> subblocks_valid (grid c)"
    using wf_example_filled example_filled_valid by simp
  note t1 = subblock_invariant_spec[where puzzle = example_grid and r = "[3, 1, 4]"
      and S = "{example_filled}" and d = ?d, THEN conjunct1]
  note t2 = subblock_invariant_spec[where puzzle = example_grid and r = "[3, 1, 4]"
      and S = "{example_filled}" and d = ?d, THEN conjunct2]
  have i: "\<exists>chrom r'. initialize_random (Chromosome_of_puzzle example_grid) [3, 1, 4] = Inr (chrom, r') \<and>
      subblocks_valid (grid chrom)"
    using t1 wf_example_grid g by blast
  have v: "subblocks_valid (grid ?d)" using t2 s d by blast
  show ?thesis using wf_example_grid g i d v by blast
qed

section \<open>The solver\<close>




















end
